theory Spec2Isabelle
  imports Main "HOL-Library.Word"
begin

section \<open>The scores file of \<open>adjust_score.c\<close>\<close>

text \<open>
  A shallow embedding of \<open>adjust_score.c\<close>. Bytes are \<open>char\<close>, C buffers are byte lists,
  the scores file is a byte list with a stream position, and every function of the source
  is one function here, taking the state of the file stream and returning it updated.
  C \<open>int\<close> is 32 bits wide and \<open>long\<close> 64 bits (LP64): values are \<open>int\<close>, and every
  C conversion or addition that could leave the type is written with its wrap-around
  (\<open>signed_take_bit\<close>).

  Left out: \<open>main\<close>; the exit of the program when \<open>malloc\<close> fails in \<open>handle_message\<close>;
  the line \<open>get_score\<close> prints on the standard output; null pointers (\<open>score_line\<close> is
  never null, and \<open>strncpy\<close> returns its destination, so the branch of \<open>adjust_score\<close>
  for a failed copy is never taken); and read errors, so that \<open>getline\<close> returns -1 at the
  end of the file only.
\<close>

subsection \<open>Constants and C library functions\<close>

definition NUL :: char where "NUL = CHR 0x00"
definition NL :: char where "NL = CHR 0x0A"

definition FIELD_SIZE :: nat where "FIELD_SIZE = 10"
definition REC_SIZE :: nat where "REC_SIZE = FIELD_SIZE * 2 + 1"

definition INT_MAX :: int where "INT_MAX = 2147483647"
definition INT_MIN :: int where "INT_MIN = - 2147483648"
definition LONG_MAX :: int where "LONG_MAX = 9223372036854775807"
definition LONG_MIN :: int where "LONG_MIN = - 9223372036854775808"
definition SCORE_LOW_BOUND :: int where "SCORE_LOW_BOUND = - 999999999"

text \<open>Conversion of a value to C \<open>int\<close> and to C \<open>long\<close>.\<close>

definition to_int :: "int \<Rightarrow> int" where "to_int x = signed_take_bit 31 x"
definition to_long :: "int \<Rightarrow> int" where "to_long x = signed_take_bit 63 x"

datatype score_errno = SCORE_VALID | SCORE_OVERFLOW | SCORE_UNDERFLOW | SCORE_INVALID

text \<open>\<open>isspace\<close> and \<open>isdigit\<close> of the C locale; no byte above 127 is either.\<close>

definition isspace :: "char \<Rightarrow> bool" where
  "isspace c = (let n = (of_char c :: nat) in n = 32 \<or> (9 \<le> n \<and> n \<le> 13))"

definition isdigit :: "char \<Rightarrow> bool" where
  "isdigit c = (let n = (of_char c :: nat) in 48 \<le> n \<and> n \<le> 57)"

text \<open>
  A \<open>char *\<close> argument is the list of the bytes it points to; the C string it holds ends
  before the first null byte (a list without one is read as terminated at its end).
\<close>

definition c_str :: "char list \<Rightarrow> char list" where
  "c_str buf = takeWhile (\<lambda>c. c \<noteq> NUL) buf"

definition strlen :: "char list \<Rightarrow> nat" where
  "strlen buf = length (c_str buf)"

text \<open>\<open>strncpy(dst, src, n)\<close> into a buffer of \<open>n\<close> bytes: the string, cut at \<open>n\<close> bytes,
  then null bytes up to \<open>n\<close>.\<close>

definition strncpy :: "char list \<Rightarrow> nat \<Rightarrow> char list" where
  "strncpy src n = take n (c_str src) @ replicate (n - strlen src) NUL"

text \<open>\<open>strncmp\<close>: 0 when the strings agree on their first \<open>n\<close> bytes or up to a common
  terminator, otherwise the sign of the first difference.\<close>

fun strncmp :: "char list \<Rightarrow> char list \<Rightarrow> nat \<Rightarrow> int" where
  "strncmp a b 0 = 0"
| "strncmp a b (Suc n) =
     (let x = (case a of [] \<Rightarrow> NUL | c # _ \<Rightarrow> c);
          y = (case b of [] \<Rightarrow> NUL | c # _ \<Rightarrow> c)
      in if x \<noteq> y then (if (of_char x :: nat) < of_char y then - 1 else 1)
         else if x = NUL then 0
         else strncmp (tl a) (tl b) n)"

text \<open>The value of a run of decimal digits, and \<open>strtol(nptr, &endptr, 10)\<close>: the result,
  the string \<open>endptr\<close> points to, and whether \<open>errno\<close> is \<open>ERANGE\<close> afterwards.\<close>

definition digit_val :: "char \<Rightarrow> nat" where
  "digit_val c = of_char c - 48"

definition digits_val :: "char list \<Rightarrow> nat" where
  "digits_val ds = foldl (\<lambda>a c. 10 * a + digit_val c) 0 ds"

definition strtol :: "char list \<Rightarrow> int \<times> char list \<times> bool" where
  "strtol nptr =
     (let s1 = dropWhile isspace nptr;
          neg = (case s1 of [] \<Rightarrow> False | c # _ \<Rightarrow> c = CHR ''-'');
          s2 = (case s1 of [] \<Rightarrow> [] | c # t \<Rightarrow> if c = CHR ''-'' \<or> c = CHR ''+'' then t else s1);
          ds = takeWhile isdigit s2;
          x = (if neg then - int (digits_val ds) else int (digits_val ds))
      in if ds = [] then (0, nptr, False)
         else if x > LONG_MAX then (LONG_MAX, dropWhile isdigit s2, True)
         else if x < LONG_MIN then (LONG_MIN, dropWhile isdigit s2, True)
         else (x, dropWhile isdigit s2, False))"

text \<open>The text \<open>snprintf(buf, n, "%d", v)\<close> leaves in \<open>buf\<close> before its terminator.\<close>

definition digit_char :: "nat \<Rightarrow> char" where
  "digit_char d = ''0123456789'' ! d"

fun dec_nat :: "nat \<Rightarrow> char list" where
  "dec_nat n = (if n < 10 then [digit_char n] else dec_nat (n div 10) @ [digit_char (n mod 10)])"

declare dec_nat.simps [simp del]

definition dec_int :: "int \<Rightarrow> char list" where
  "dec_int v = (if v < 0 then CHR ''-'' # dec_nat (nat (- v)) else dec_nat (nat v))"

definition snprintf_d :: "nat \<Rightarrow> int \<Rightarrow> char list" where
  "snprintf_d n v = take (n - 1) (dec_int v)"

text \<open>The value that call returns: the length of the whole decimal text.\<close>

definition snprintf_ret :: "int \<Rightarrow> int" where
  "snprintf_ret v = int (length (dec_int v))"

subsection \<open>The file stream\<close>

text \<open>
  The state the program acts on: the bytes of the scores file, the position of the stream,
  whether the stream is open, whether \<open>fopen\<close> will succeed, the outcomes of the coming
  \<open>fseek\<close> and \<open>fwrite\<close> calls (\<open>True\<close>: the call fails; none planned: it succeeds), and
  the trace of the stdio calls made so far.
\<close>

datatype io_event = EvOpen | EvOpenFailed | EvSeek | EvRead | EvWrite | EvClose

record world =
  bytes :: "char list"
  fpos :: nat
  is_open :: bool
  can_open :: bool
  plan :: "bool list"
  trace :: "io_event list"

datatype whence = SEEK_SET | SEEK_CUR | SEEK_END

definition next_fails :: "world \<Rightarrow> bool \<times> world" where
  "next_fails w = (case plan w of [] \<Rightarrow> (False, w) | f # fs \<Rightarrow> (f, w\<lparr>plan := fs\<rparr>))"

definition fopen :: "world \<Rightarrow> bool \<times> world" where
  "fopen w =
     (if can_open w then (True, w\<lparr>is_open := True, fpos := 0, trace := trace w @ [EvOpen]\<rparr>)
      else (False, w\<lparr>trace := trace w @ [EvOpenFailed]\<rparr>))"

definition fclose :: "world \<Rightarrow> world" where
  "fclose w = w\<lparr>is_open := False, trace := trace w @ [EvClose]\<rparr>"

text \<open>\<open>fseek\<close> fails when the file system makes it fail or the target is negative.\<close>

definition fseek :: "world \<Rightarrow> int \<Rightarrow> whence \<Rightarrow> int \<times> world" where
  "fseek w offset wh =
     (let (failed, w1) = next_fails w;
          w2 = w1\<lparr>trace := trace w1 @ [EvSeek]\<rparr>;
          base = (case wh of SEEK_SET \<Rightarrow> 0 | SEEK_CUR \<Rightarrow> int (fpos w2)
                  | SEEK_END \<Rightarrow> int (length (bytes w2)));
          target = base + offset
      in if failed \<or> target < 0 then (- 1, w2) else (0, w2\<lparr>fpos := nat target\<rparr>))"

text \<open>\<open>fwrite(data, size, 1, fp)\<close>: the number of items written, 1 or 0. The bytes go
  over the file from the stream position and extend it at its end; a failing call writes
  nothing.\<close>

definition fwrite :: "world \<Rightarrow> char list \<Rightarrow> nat \<times> world" where
  "fwrite w data =
     (let (failed, w1) = next_fails w;
          w2 = w1\<lparr>trace := trace w1 @ [EvWrite]\<rparr>
      in if failed then (0, w2)
         else (1, w2\<lparr>bytes := take (fpos w2) (bytes w2) @ replicate (fpos w2 - length (bytes w2)) NUL
                            @ data @ drop (fpos w2 + length data) (bytes w2),
                    fpos := fpos w2 + length data\<rparr>))"

text \<open>\<open>getline\<close>: the bytes up to and including the next newline, or up to the end of
  the file; \<open>None\<close> is the result -1 at the end of the file.\<close>

definition read_line :: "char list \<Rightarrow> char list" where
  "read_line r = takeWhile (\<lambda>c. c \<noteq> NL) r @ take 1 (dropWhile (\<lambda>c. c \<noteq> NL) r)"

definition getline :: "world \<Rightarrow> char list option \<times> world" where
  "getline w =
     (let r = drop (fpos w) (bytes w);
          w1 = w\<lparr>trace := trace w @ [EvRead]\<rparr>
      in if r = [] then (None, w1)
         else (Some (read_line r), w1\<lparr>fpos := fpos w1 + length (read_line r)\<rparr>))"

text \<open>A complete line of the file: bytes without a newline, then one newline.\<close>

definition complete_line :: "char list \<Rightarrow> bool" where
  "complete_line l = (l \<noteq> [] \<and> last l = NL \<and> NL \<notin> set (butlast l))"

subsection \<open>The functions of \<open>adjust_score.c\<close>\<close>

text \<open>\<open>handle_message\<close> returns a copy of the message in a buffer of \<open>SIZE = 40\<close> bytes.\<close>

definition handle_message :: "char list \<Rightarrow> char list" where
  "handle_message error = c_str (strncpy error 40)"

definition check_sum :: "int \<Rightarrow> int \<Rightarrow> int" where
  "check_sum old new =
     (let sum = to_long (old + new)
      in if sum > INT_MAX then 0 else if sum < SCORE_LOW_BOUND then 0 else 1)"

text \<open>\<open>score_strtol\<close>: the first argument is the value \<open>*score\<close> holds before the call,
  the second component of the result the value it holds afterwards.\<close>

definition score_strtol :: "int \<Rightarrow> char list \<Rightarrow> score_errno \<times> int" where
  "score_strtol score score_line =
     (case c_str score_line of
        [] \<Rightarrow> (SCORE_INVALID, score)
      | c # _ \<Rightarrow>
          if isspace c then (SCORE_INVALID, score)
          else
            (let (score_long, endptr, erange) = strtol (c_str score_line)
             in if score_long > INT_MAX \<or> (erange \<and> score_long = LONG_MAX)
                  then (SCORE_OVERFLOW, score)
                else if score_long < SCORE_LOW_BOUND \<or> (erange \<and> score_long = LONG_MIN)
                  then (SCORE_UNDERFLOW, score)
                else if endptr \<noteq> [] then (SCORE_INVALID, score)
                else (SCORE_VALID, to_int score_long)))"

text \<open>\<open>get_score\<close> and \<open>match_name\<close> are called on lines of 21 bytes only.\<close>

definition get_score :: "char list \<Rightarrow> int" where
  "get_score line_buf =
     (if line_buf ! (REC_SIZE - 1) \<noteq> NL then INT_MIN
      else
        (let score = take FIELD_SIZE (drop 10 line_buf) @ [NUL];
             (err, score_int) = score_strtol 0 score
         in if err \<noteq> SCORE_VALID then INT_MIN else score_int))"

definition match_name :: "char list \<Rightarrow> char list \<Rightarrow> int" where
  "match_name player_name line_buf =
     (if line_buf ! (FIELD_SIZE - 1) \<noteq> NUL then 0
      else
        (let name_in_line = (take FIELD_SIZE line_buf)[FIELD_SIZE - 1 := NUL]
         in if strncmp player_name name_in_line FIELD_SIZE \<noteq> 0 then 0 else 1))"

text \<open>The buffer \<open>score_string\<close> that \<open>write_score\<close> builds: 11 null bytes, the decimal
  text of the score cut at 10 characters over them, and a newline at index 10.\<close>

definition score_string :: "int \<Rightarrow> char list" where
  "score_string score =
     (let s = snprintf_d 11 score
      in (s @ replicate (FIELD_SIZE + 1 - length s) NUL)[FIELD_SIZE := NL])"

definition write_score :: "world \<Rightarrow> char list \<Rightarrow> int \<Rightarrow> whence \<Rightarrow> int \<Rightarrow> int \<times> world" where
  "write_score w player_name score file_pos offset =
     (if snprintf_ret score < 0 then (0, w)
      else
        (case fseek w offset file_pos of (r, w1) \<Rightarrow>
           if r \<noteq> - 1 then
             (case fwrite w1 (take FIELD_SIZE player_name) of (n1, w2) \<Rightarrow>
                if n1 \<le> 0 then (0, w2)
                else
                  (case fwrite w2 (score_string score) of (n2, w3) \<Rightarrow>
                     if n2 \<le> 0 then (0, w3) else (1, w3)))
           else (0, w1)))"

text \<open>The loop of \<open>find_record\<close>, entered at every \<open>getline\<close>.\<close>

function find_loop :: "char list \<Rightarrow> int \<Rightarrow> world \<Rightarrow> int \<times> world" where
  "find_loop player_name score_to_add w =
     (case getline w of
        (None, w1) \<Rightarrow> (0, w1)
      | (Some line_buf, w1) \<Rightarrow>
          if length line_buf \<noteq> 21 then find_loop player_name score_to_add w1
          else if match_name player_name line_buf \<noteq> 0 then
            (let current_score = get_score line_buf
             in if current_score = INT_MIN then (- 1, w1)
                else if check_sum current_score score_to_add \<noteq> 0 then
                  (case write_score w1 player_name (to_int (current_score + score_to_add))
                          SEEK_CUR (- 21) of
                     (r, w2) \<Rightarrow> if r \<noteq> 1 then (- 1, w2) else (1, w2))
                else (- 1, w1))
          else find_loop player_name score_to_add w1)"
  by pat_completeness auto

lemma read_line_nonempty: "r \<noteq> [] \<Longrightarrow> read_line r \<noteq> []"
  by (cases r) (auto simp: read_line_def)

lemma read_line_length: "length (read_line r) \<le> length r"
proof -
  have "length (takeWhile (\<lambda>c. c \<noteq> NL) r) + length (dropWhile (\<lambda>c. c \<noteq> NL) r) = length r"
    by (metis length_append takeWhile_dropWhile_id)
  then show ?thesis
    by (simp add: read_line_def min_def)
qed

lemma getline_advances:
  assumes "getline w = (Some l, w1)"
  shows "length (bytes w1) - fpos w1 < length (bytes w) - fpos w"
proof -
  let ?r = "drop (fpos w) (bytes w)"
  from assms have ne: "?r \<noteq> []"
    by (auto simp: getline_def Let_def split: if_splits)
  with assms have w1: "bytes w1 = bytes w" "fpos w1 = fpos w + length (read_line ?r)"
    by (auto simp: getline_def Let_def split: if_splits)
  from ne have pos: "0 < length (read_line ?r)"
    using read_line_nonempty by blast
  have le: "length (read_line ?r) \<le> length (bytes w) - fpos w"
    using read_line_length [of ?r] by simp
  from pos le show ?thesis
    unfolding w1 by linarith
qed

termination find_loop
  by (relation "measure (\<lambda>(n, d, w). length (bytes w) - fpos w)")
     (auto dest: getline_advances [OF sym])

declare find_loop.simps [simp del]

definition find_record :: "world \<Rightarrow> char list \<Rightarrow> int \<Rightarrow> int \<times> world" where
  "find_record w player_name score_to_add =
     (case fseek w 0 SEEK_SET of (r, w1) \<Rightarrow>
        if r = - 1 then (- 1, w1) else find_loop player_name score_to_add w1)"

fun validate_loop :: "char list \<Rightarrow> int" where
  "validate_loop [] = 1"
| "validate_loop (c # cs) = (if isspace c then 0 else validate_loop cs)"

definition validate_name :: "char list \<Rightarrow> int" where
  "validate_name player_name =
     (if strlen player_name > 10 then 0 else validate_loop (c_str player_name))"

text \<open>The buffer \<open>name_to_search\<close> of \<open>adjust_score\<close>.\<close>

definition name_to_search :: "char list \<Rightarrow> char list" where
  "name_to_search player_name = (strncpy player_name FIELD_SIZE)[FIELD_SIZE - 1 := NUL]"

text \<open>\<open>adjust_score\<close>: the result, the message left in \<open>*message\<close> if one was, and the
  state of the file afterwards. The user id is not used by the code.\<close>

definition adjust_score :: "world \<Rightarrow> nat \<Rightarrow> char list \<Rightarrow> int \<Rightarrow> int \<times> char list option \<times> world" where
  "adjust_score w uid player_name score_to_add =
     (if validate_name player_name \<noteq> 1
        then (0, Some (handle_message ''Player name invalid\<newline>''), w)
      else
        (case fopen w of
           (False, w1) \<Rightarrow> (0, Some (handle_message ''File open error''), w1)
         | (True, w1) \<Rightarrow>
             (case find_record w1 (name_to_search player_name) score_to_add of
                (find_player, w2) \<Rightarrow>
                  if find_player = - 1
                    then (0, Some (handle_message ''Error found in record\<newline>''), fclose w2)
                  else if find_player = 0 then
                    (case fseek w2 0 SEEK_END of (r, w3) \<Rightarrow>
                       if r = - 1
                         then (0, Some (handle_message ''File seek error\<newline>''), fclose w3)
                       else
                         (case write_score w3 (name_to_search player_name) score_to_add SEEK_END 0 of
                            (r2, w4) \<Rightarrow>
                              if r2 \<noteq> 1
                                then (0, Some (handle_message ''Error writing new record\<newline>''), fclose w4)
                              else (1, None, fclose w4)))
                  else (1, None, fclose w2))))"

text \<open>Two states of the stream, the second reached from the first by calls that seek,
  read or write only: the handle is as open as it was and the trace is longer by those
  calls.\<close>

definition stream_step :: "world \<Rightarrow> world \<Rightarrow> bool" where
  "stream_step w w' =
     (is_open w' = is_open w
      \<and> take (length (trace w)) (trace w') = trace w
      \<and> set (drop (length (trace w)) (trace w')) \<subseteq> {EvSeek, EvRead, EvWrite})"

text \<open>The state before a call of \<open>adjust_score\<close> on a file with the given bytes that
  can be opened, with no failure planned.\<close>

definition closed_file :: "char list \<Rightarrow> world" where
  "closed_file bs = \<lparr>bytes = bs, fpos = 0, is_open = False, can_open = True, plan = [], trace = []\<rparr>"

subsection \<open>Decimal digits\<close>

lemma lt10_cases:
  "d < (10::nat) \<Longrightarrow> d = 0 \<or> d = 1 \<or> d = 2 \<or> d = 3 \<or> d = 4 \<or> d = 5 \<or> d = 6 \<or> d = 7 \<or> d = 8 \<or> d = 9"
  by arith

lemma of_char_digit_char: "d < 10 \<Longrightarrow> (of_char (digit_char d) :: nat) = 48 + d"
  by (drule lt10_cases) (auto simp: digit_char_def)

lemma isdigit_digit_char: "d < 10 \<Longrightarrow> isdigit (digit_char d)"
  by (simp add: isdigit_def of_char_digit_char)

lemma digit_val_digit_char: "d < 10 \<Longrightarrow> digit_val (digit_char d) = d"
  by (simp add: digit_val_def of_char_digit_char)

lemma isdigit_not_isspace: "isdigit c \<Longrightarrow> \<not> isspace c"
  by (auto simp: isdigit_def isspace_def Let_def)

lemma isdigit_not_NUL: "isdigit c \<Longrightarrow> c \<noteq> NUL"
  by (auto simp: isdigit_def NUL_def)

lemma isdigit_not_sign: "isdigit c \<Longrightarrow> c \<noteq> CHR ''-'' \<and> c \<noteq> CHR ''+''"
  by (auto simp: isdigit_def)

lemma dec_nat_digits: "\<forall>c \<in> set (dec_nat n). isdigit c"
proof (induction n rule: dec_nat.induct)
  case (1 n)
  show ?case
  proof (cases "n < 10")
    case True
    then show ?thesis by (simp add: dec_nat.simps [of n] isdigit_digit_char)
  next
    case False
    with 1 show ?thesis by (simp add: dec_nat.simps [of n] isdigit_digit_char)
  qed
qed

lemma dec_nat_nonempty: "dec_nat n \<noteq> []"
  by (subst dec_nat.simps) simp

lemma digits_val_snoc: "digits_val (ds @ [c]) = 10 * digits_val ds + digit_val c"
  by (simp add: digits_val_def)

lemma digits_val_dec_nat: "digits_val (dec_nat n) = n"
proof (induction n rule: dec_nat.induct)
  case (1 n)
  show ?case
  proof (cases "n < 10")
    case True
    then show ?thesis
      by (simp add: dec_nat.simps [of n] digits_val_def digit_val_digit_char)
  next
    case False
    with 1 have "digits_val (dec_nat (n div 10)) = n div 10" by simp
    with False show ?thesis
      by (simp add: dec_nat.simps [of n] digits_val_snoc digit_val_digit_char)
  qed
qed

lemma length_dec_nat: "n < 10 ^ k \<Longrightarrow> 0 < k \<Longrightarrow> length (dec_nat n) \<le> k"
proof (induction n arbitrary: k rule: dec_nat.induct)
  case (1 n)
  show ?case
  proof (cases "n < 10")
    case True
    with 1(3) show ?thesis by (simp add: dec_nat.simps [of n])
  next
    case False
    with 1(2,3) obtain j where k: "k = Suc j" "0 < j"
      by (cases k; cases "k - 1") auto
    with 1(2) have "n div 10 < 10 ^ j"
      by (simp add: less_mult_imp_div_less mult.commute)
    with 1(1) False k have "length (dec_nat (n div 10)) \<le> j" by simp
    with False k show ?thesis by (simp add: dec_nat.simps [of n])
  qed
qed

subsection \<open>Printing and parsing a score\<close>

lemma dec_int_digits_pos: "0 \<le> v \<Longrightarrow> \<forall>c \<in> set (dec_int v). isdigit c"
  by (simp add: dec_int_def dec_nat_digits)

lemma dec_int_no_NUL: "NUL \<notin> set (dec_int v)"
  using dec_nat_digits isdigit_not_NUL by (auto simp: dec_int_def NUL_def)

lemma dec_int_nonempty: "dec_int v \<noteq> []"
  by (simp add: dec_int_def dec_nat_nonempty)

lemma takeWhile_all: "\<forall>c \<in> set xs. P c \<Longrightarrow> takeWhile P xs = xs"
  by (induction xs) auto

lemma dropWhile_all: "\<forall>c \<in> set xs. P c \<Longrightarrow> dropWhile P xs = []"
  by (induction xs) auto

lemma strtol_dec_nat:
  assumes "int n \<le> LONG_MAX"
  shows "strtol (dec_nat n) = (int n, [], False)"
proof -
  obtain c t where ct: "dec_nat n = c # t"
    using dec_nat_nonempty [of n] by (cases "dec_nat n") auto
  have dig: "\<forall>x \<in> set (c # t). isdigit x"
    using dec_nat_digits [of n] ct by simp
  then have c: "isdigit c" by simp
  have tw: "takeWhile isdigit (c # t) = c # t"
    using dig by (rule takeWhile_all)
  have dw: "dropWhile isdigit (c # t) = []"
    using dig by (rule dropWhile_all)
  have v: "digits_val (c # t) = n"
    using digits_val_dec_nat [of n] ct by simp
  have lo: "\<not> int n < LONG_MIN"
    by (simp add: LONG_MIN_def)
  from c have "\<not> isspace c" "c \<noteq> CHR ''-''" "c \<noteq> CHR ''+''"
    using isdigit_not_isspace isdigit_not_sign by auto
  then show ?thesis
    using assms lo unfolding ct strtol_def Let_def
    by (simp del: takeWhile.simps dropWhile.simps add: dropWhile.simps(2) [of isspace] tw dw v)
qed

lemma strtol_minus_dec_nat:
  assumes "LONG_MIN \<le> - int n"
  shows "strtol (CHR ''-'' # dec_nat n) = (- int n, [], False)"
proof -
  have dig: "\<forall>x \<in> set (dec_nat n). isdigit x"
    by (rule dec_nat_digits)
  have tw: "takeWhile isdigit (dec_nat n) = dec_nat n"
    using dig by (rule takeWhile_all)
  have dw: "dropWhile isdigit (dec_nat n) = []"
    using dig by (rule dropWhile_all)
  have hi: "\<not> - int n > LONG_MAX"
    by (simp add: LONG_MAX_def)
  have sp: "\<not> isspace (CHR ''-'')"
    by (simp add: isspace_def)
  show ?thesis
    using assms hi sp dec_nat_nonempty [of n]
    unfolding strtol_def Let_def
    by (simp add: tw dw digits_val_dec_nat)
qed

lemma strtol_dec_int:
  assumes "LONG_MIN \<le> v" "v \<le> LONG_MAX"
  shows "strtol (dec_int v) = (v, [], False)"
proof (cases "v < 0")
  case True
  with assms show ?thesis
    using strtol_minus_dec_nat [of "nat (- v)"] by (simp add: dec_int_def)
next
  case False
  with assms show ?thesis
    using strtol_dec_nat [of "nat v"] by (simp add: dec_int_def)
qed

lemma c_str_terminated: "NUL \<notin> set s \<Longrightarrow> c_str (s @ NUL # t) = s"
  by (induction s) (auto simp: c_str_def)

lemma c_str_no_NUL: "NUL \<notin> set s \<Longrightarrow> c_str s = s"
  by (induction s) (auto simp: c_str_def)

lemma to_int_id: "INT_MIN \<le> v \<Longrightarrow> v \<le> INT_MAX \<Longrightarrow> to_int v = v"
  unfolding to_int_def INT_MIN_def INT_MAX_def
  by (rule signed_take_bit_int_eq_self) simp_all

lemma to_long_id: "LONG_MIN \<le> v \<Longrightarrow> v \<le> LONG_MAX \<Longrightarrow> to_long v = v"
  unfolding to_long_def LONG_MIN_def LONG_MAX_def
  by (rule signed_take_bit_int_eq_self) simp_all

lemma hd_dec_int_not_space: "dec_int v = c # t \<Longrightarrow> \<not> isspace c"
proof (cases "v < 0")
  case True
  assume "dec_int v = c # t"
  with True have "c = CHR ''-''" by (simp add: dec_int_def)
  then show ?thesis by (simp add: isspace_def)
next
  case False
  assume "dec_int v = c # t"
  with False have "isdigit c"
    using dec_int_digits_pos [of v] by auto
  then show ?thesis by (rule isdigit_not_isspace)
qed

lemma score_strtol_dec_int:
  assumes "SCORE_LOW_BOUND \<le> v" "v \<le> INT_MAX" "c_str buf = dec_int v"
  shows "score_strtol s0 buf = (SCORE_VALID, v)"
proof -
  obtain c t where ct: "dec_int v = c # t"
    using dec_int_nonempty [of v] by (cases "dec_int v") auto
  have sp: "\<not> isspace c"
    using ct by (rule hd_dec_int_not_space)
  have "strtol (dec_int v) = (v, [], False)"
    using assms by (intro strtol_dec_int) (simp_all add: LONG_MIN_def LONG_MAX_def SCORE_LOW_BOUND_def INT_MAX_def)
  moreover have "to_int v = v"
    using assms by (intro to_int_id) (simp_all add: INT_MIN_def SCORE_LOW_BOUND_def)
  ultimately show ?thesis
    using assms sp ct by (simp add: score_strtol_def)
qed

lemma length_dec_int:
  assumes "SCORE_LOW_BOUND \<le> v" "v \<le> INT_MAX"
  shows "length (dec_int v) \<le> 10"
proof (cases "v < 0")
  case True
  with assms have "nat (- v) < 10 ^ 9"
    by (simp add: SCORE_LOW_BOUND_def)
  then have "length (dec_nat (nat (- v))) \<le> 9"
    by (rule length_dec_nat) simp
  with True show ?thesis by (simp add: dec_int_def)
next
  case False
  with assms have "nat v < 10 ^ 10"
    by (simp add: INT_MAX_def)
  then have "length (dec_nat (nat v)) \<le> 10"
    by (rule length_dec_nat) simp
  with False show ?thesis by (simp add: dec_int_def)
qed

lemma length_score_string: "length (score_string v) = 11"
  by (simp add: score_string_def snprintf_d_def FIELD_SIZE_def Let_def)

lemma score_string_in_range:
  assumes "SCORE_LOW_BOUND \<le> v" "v \<le> INT_MAX"
  shows "score_string v = dec_int v @ replicate (10 - length (dec_int v)) NUL @ [NL]"
proof -
  let ?s = "dec_int v"
  have len: "length ?s \<le> 10"
    using assms by (rule length_dec_int)
  then have "11 - length ?s = Suc (10 - length ?s)" by simp
  then have "?s @ replicate (11 - length ?s) NUL = (?s @ replicate (10 - length ?s) NUL) @ [NUL]"
    by (simp add: replicate_append_same)
  moreover have "length (?s @ replicate (10 - length ?s) NUL) = 10"
    using len by simp
  ultimately have "(?s @ replicate (11 - length ?s) NUL)[10 := NL]
      = (?s @ replicate (10 - length ?s) NUL) @ [NL]"
    by (metis list_update_length)
  with len show ?thesis
    by (simp add: score_string_def snprintf_d_def FIELD_SIZE_def Let_def)
qed

lemma get_score_score_string:
  assumes "SCORE_LOW_BOUND \<le> v" "v \<le> INT_MAX" "length nm = 10"
  shows "get_score (nm @ score_string v) = v"
proof -
  let ?s = "dec_int v"
  let ?pad = "replicate (10 - length ?s) NUL"
  have len: "length ?s \<le> 10"
    using assms(1,2) by (rule length_dec_int)
  have ss: "score_string v = ?s @ ?pad @ [NL]"
    using assms(1,2) by (rule score_string_in_range)
  have last: "(nm @ score_string v) ! 20 = NL"
    using assms(3) len by (simp add: ss nth_append)
  have field: "take 10 (drop 10 (nm @ score_string v)) = ?s @ ?pad"
    using assms(3) len by (simp add: ss)
  have "c_str ((?s @ ?pad) @ [NUL]) = ?s"
    using c_str_terminated [OF dec_int_no_NUL, of v "?pad"]
    by (simp add: replicate_append_same)
  then have "score_strtol 0 ((?s @ ?pad) @ [NUL]) = (SCORE_VALID, v)"
    using assms(1,2) by (intro score_strtol_dec_int)
  with last field show ?thesis
    by (simp add: get_score_def REC_SIZE_def FIELD_SIZE_def)
qed

subsection \<open>Names\<close>

lemma strncmp_zero_iff: "strncmp a b n = 0 \<longleftrightarrow> c_str (take n a) = c_str (take n b)"
proof (induction n arbitrary: a b)
  case 0
  show ?case by simp
next
  case (Suc n)
  show ?case
  proof (cases a)
    case Nil
    then show ?thesis
      by (cases b) (auto simp: c_str_def)
  next
    case (Cons x xs)
    note a = Cons
    show ?thesis
    proof (cases b)
      case Nil
      with a show ?thesis by (auto simp: c_str_def)
    next
      case (Cons y ys)
      with a Suc [of xs ys] show ?thesis
        by (auto simp: c_str_def Let_def)
    qed
  qed
qed

lemma length_strncpy: "length (strncpy src n) = n"
  by (simp add: strncpy_def strlen_def min_def)

lemma length_name_to_search: "length (name_to_search p) = 10"
  by (simp add: name_to_search_def length_strncpy FIELD_SIZE_def)

lemma name_to_search_last: "name_to_search p ! 9 = NUL"
  by (simp add: name_to_search_def length_strncpy FIELD_SIZE_def)

lemma c_str_no_NUL_inside: "NUL \<notin> set (c_str s)"
  unfolding c_str_def using set_takeWhileD by fastforce

lemma name_to_search_eq:
  "name_to_search p = take 9 (c_str p) @ replicate (10 - min 9 (strlen p)) NUL"
proof (cases "strlen p \<le> 9")
  case True
  then have t: "take 10 (c_str p) = c_str p" "take 9 (c_str p) = c_str p"
    by (simp_all add: strlen_def)
  have "(c_str p @ replicate (10 - strlen p) NUL) ! 9 = NUL"
    using True by (simp add: nth_append strlen_def)
  moreover have "9 < length (c_str p @ replicate (10 - strlen p) NUL)"
    using True by (simp add: strlen_def)
  ultimately have "(c_str p @ replicate (10 - strlen p) NUL)[9 := NUL]
      = c_str p @ replicate (10 - strlen p) NUL"
    by (simp only: list_update_same_conv)
  with True t show ?thesis
    by (simp add: name_to_search_def strncpy_def FIELD_SIZE_def min_def)
next
  case False
  then have len: "length (take 9 (c_str p)) = 9"
    by (simp add: strlen_def)
  have "take (Suc 9) (c_str p) = take 9 (c_str p) @ [c_str p ! 9]"
    using False by (intro take_Suc_conv_app_nth) (simp add: strlen_def)
  then obtain x where x: "take 10 (c_str p) = take 9 (c_str p) @ [x]"
    by simp
  have "(take 9 (c_str p) @ [x])[9 := NUL] = take 9 (c_str p) @ [NUL]"
    using len by (metis list_update_length)
  with False x show ?thesis
    by (simp add: name_to_search_def strncpy_def FIELD_SIZE_def min_def)
qed

lemma c_str_name_to_search: "c_str (name_to_search p) = take 9 (c_str p)"
proof -
  have "NUL \<notin> set (take 9 (c_str p))"
    using c_str_no_NUL_inside [of p] set_take_subset [of 9 "c_str p"] by blast
  then have "c_str (take 9 (c_str p) @ NUL # replicate (9 - min 9 (strlen p)) NUL)
      = take 9 (c_str p)"
    by (rule c_str_terminated)
  moreover have "10 - min 9 (strlen p) = Suc (9 - min 9 (strlen p))"
    by simp
  ultimately show ?thesis
    unfolding name_to_search_eq by (simp only: replicate_Suc)
qed

lemma match_name_iff:
  assumes "10 \<le> length line_buf"
  shows "match_name player_name line_buf = 1 \<longleftrightarrow>
    line_buf ! 9 = NUL \<and> c_str (take 10 player_name) = c_str (take 10 line_buf)"
proof -
  have "line_buf ! 9 = NUL \<Longrightarrow> (take 10 line_buf)[9 := NUL] = take 10 line_buf"
    using assms by (intro list_update_same_conv [THEN iffD2]) simp_all
  then show ?thesis
    by (auto simp: match_name_def FIELD_SIZE_def strncmp_zero_iff Let_def)
qed

lemma match_name_record:
  "match_name (name_to_search q) (name_to_search p @ rest) = 1
     \<longleftrightarrow> take 9 (c_str q) = take 9 (c_str p)"
proof -
  have "take 10 (name_to_search p @ rest) = name_to_search p" for p
    by (simp add: length_name_to_search)
  moreover have "(name_to_search p @ rest) ! 9 = NUL"
    by (simp add: nth_append length_name_to_search name_to_search_last)
  moreover have "take 10 (name_to_search q) = name_to_search q"
    by (simp add: length_name_to_search)
  ultimately show ?thesis
    by (subst match_name_iff) (simp_all add: length_name_to_search c_str_name_to_search)
qed

subsection \<open>The stream and the scan\<close>

lemma next_fails_none: "plan w = [] \<Longrightarrow> next_fails w = (False, w)"
  by (simp add: next_fails_def)

lemma fseek_end_ok:
  "plan w = [] \<Longrightarrow>
   fseek w 0 SEEK_END = (0, w\<lparr>trace := trace w @ [EvSeek], fpos := length (bytes w)\<rparr>)"
  by (simp add: fseek_def next_fails_none Let_def)

lemma fseek_cur_ok:
  "plan w = [] \<Longrightarrow> 21 \<le> fpos w \<Longrightarrow>
   fseek w (- 21) SEEK_CUR = (0, w\<lparr>trace := trace w @ [EvSeek], fpos := fpos w - 21\<rparr>)"
  by (simp add: fseek_def next_fails_none Let_def nat_diff_distrib')

lemma fseek_set_ok:
  "plan w = [] \<Longrightarrow>
   fseek w 0 SEEK_SET = (0, w\<lparr>trace := trace w @ [EvSeek], fpos := 0\<rparr>)"
  by (simp add: fseek_def next_fails_none Let_def)

lemma fwrite_ok:
  "plan w = [] \<Longrightarrow>
   fwrite w data =
     (1, w\<lparr>trace := trace w @ [EvWrite],
           bytes := take (fpos w) (bytes w) @ replicate (fpos w - length (bytes w)) NUL
                    @ data @ drop (fpos w + length data) (bytes w),
           fpos := fpos w + length data\<rparr>)"
  by (simp add: fwrite_def next_fails_none Let_def)

lemma write_score_append:
  assumes "plan w = []" "length nm = 10"
  shows "write_score w nm v SEEK_END 0 =
    (1, w\<lparr>trace := trace w @ [EvSeek, EvWrite, EvWrite],
          bytes := bytes w @ nm @ score_string v,
          fpos := length (bytes w) + 21\<rparr>)"
  using assms
  by (simp add: write_score_def snprintf_ret_def fseek_end_ok fwrite_ok FIELD_SIZE_def length_score_string)

lemma write_score_overwrite:
  assumes "plan w = []" "length nm = 10" "bytes w = pre @ old @ post" "length old = 21"
    "fpos w = length pre + 21"
  shows "write_score w nm v SEEK_CUR (- 21) =
    (1, w\<lparr>trace := trace w @ [EvSeek, EvWrite, EvWrite],
          bytes := pre @ nm @ score_string v @ post,
          fpos := length pre + 21\<rparr>)"
  using assms
  by (simp add: write_score_def snprintf_ret_def fseek_cur_ok fwrite_ok FIELD_SIZE_def length_score_string)

lemma takeWhile_upto: "x \<notin> set xs \<Longrightarrow> takeWhile (\<lambda>c. c \<noteq> x) (xs @ x # ys) = xs"
  by (induction xs) auto

lemma dropWhile_upto: "x \<notin> set xs \<Longrightarrow> dropWhile (\<lambda>c. c \<noteq> x) (xs @ x # ys) = x # ys"
  by (induction xs) auto

lemma read_line_complete:
  assumes "complete_line l"
  shows "read_line (l @ rest) = l"
proof -
  from assms have "l = butlast l @ [NL]"
    using append_butlast_last_id [of l] by (simp add: complete_line_def)
  with assms obtain body where l: "l = body @ [NL]" and body: "NL \<notin> set body"
    by (auto simp: complete_line_def)
  have "takeWhile (\<lambda>c. c \<noteq> NL) (body @ NL # rest) = body"
    using body by (rule takeWhile_upto)
  moreover have "dropWhile (\<lambda>c. c \<noteq> NL) (body @ NL # rest) = NL # rest"
    using body by (rule dropWhile_upto)
  ultimately show ?thesis
    unfolding l by (simp add: read_line_def)
qed

lemma getline_at:
  assumes "bytes w = pre @ l @ rest" "fpos w = length pre" "l \<noteq> []" "read_line (l @ rest) = l"
  shows "getline w = (Some l, w\<lparr>trace := trace w @ [EvRead], fpos := length pre + length l\<rparr>)"
  using assms by (simp add: getline_def Let_def)

lemma getline_eof:
  assumes "length (bytes w) \<le> fpos w"
  shows "getline w = (None, w\<lparr>trace := trace w @ [EvRead]\<rparr>)"
  using assms by (simp add: getline_def Let_def)

lemma find_loop_eof:
  assumes "length (bytes w) \<le> fpos w"
  shows "find_loop nm d w = (0, w\<lparr>trace := trace w @ [EvRead]\<rparr>)"
  by (subst find_loop.simps) (simp add: getline_eof [OF assms])

lemma find_loop_skip_line:
  assumes "bytes w = pre @ l @ rest" "fpos w = length pre" "complete_line l"
    "length l \<noteq> 21 \<or> match_name nm l = 0"
  shows "find_loop nm d w =
    find_loop nm d (w\<lparr>trace := trace w @ [EvRead], fpos := length pre + length l\<rparr>)"
proof -
  have ne: "l \<noteq> []"
    using assms(3) by (simp add: complete_line_def)
  have g: "getline w = (Some l, w\<lparr>trace := trace w @ [EvRead], fpos := length pre + length l\<rparr>)"
    using assms(1,2) ne read_line_complete [OF assms(3)] by (rule getline_at)
  show ?thesis
    using assms(4) by (subst find_loop.simps) (auto simp: g)
qed

lemma find_loop_skip_lines:
  assumes "\<forall>l \<in> set ls. complete_line l \<and> (length l \<noteq> 21 \<or> match_name nm l = 0)"
    "bytes w = pre @ concat ls @ rest" "fpos w = length pre"
  shows "find_loop nm d w =
    find_loop nm d (w\<lparr>trace := trace w @ replicate (length ls) EvRead,
                      fpos := length pre + length (concat ls)\<rparr>)"
  using assms
proof (induction ls arbitrary: w pre)
  case Nil
  then have "w\<lparr>trace := trace w @ replicate (length ([] :: char list list)) EvRead,
      fpos := length pre + length (concat ([] :: char list list))\<rparr> = w"
    by (cases w) simp
  then show ?case by simp
next
  case (Cons l ls)
  let ?w1 = "w\<lparr>trace := trace w @ [EvRead], fpos := length pre + length l\<rparr>"
  have step: "find_loop nm d w = find_loop nm d ?w1"
    using Cons.prems by (intro find_loop_skip_line [where rest = "concat ls @ rest"]) simp_all
  have "find_loop nm d ?w1 =
    find_loop nm d (?w1\<lparr>trace := trace ?w1 @ replicate (length ls) EvRead,
                        fpos := length (pre @ l) + length (concat ls)\<rparr>)"
    using Cons.prems by (intro Cons.IH) simp_all
  with step show ?case
    by (simp add: replicate_append_same add.assoc)
qed

lemma read_line_last:
  assumes "NL \<notin> set l"
  shows "read_line l = l"
proof -
  from assms have all: "\<forall>c \<in> set l. c \<noteq> NL"
    by auto
  have tw: "takeWhile (\<lambda>c. c \<noteq> NL) l = l"
    using all by (rule takeWhile_all)
  have dw: "dropWhile (\<lambda>c. c \<noteq> NL) l = []"
    using all by (rule dropWhile_all)
  show ?thesis
    by (simp only: read_line_def tw dw take.simps append_Nil2)
qed

lemma find_loop_match:
  assumes "bytes w = pre @ l @ rest" "fpos w = length pre"
    "complete_line l \<or> (rest = [] \<and> NL \<notin> set l)"
    "length l = 21" "match_name nm l = 1"
  shows "find_loop nm d w =
    (let w1 = w\<lparr>trace := trace w @ [EvRead], fpos := length pre + 21\<rparr>;
         current_score = get_score l
     in if current_score = INT_MIN then (- 1, w1)
        else if check_sum current_score d \<noteq> 0 then
          (case write_score w1 nm (to_int (current_score + d)) SEEK_CUR (- 21) of
             (r, w2) \<Rightarrow> if r \<noteq> 1 then (- 1, w2) else (1, w2))
        else (- 1, w1))"
proof -
  have ne: "l \<noteq> []"
    using assms(4) by auto
  have rl: "read_line (l @ rest) = l"
    using assms(3) read_line_complete [of l rest] read_line_last [of l] by auto
  have g: "getline w = (Some l, w\<lparr>trace := trace w @ [EvRead], fpos := length pre + length l\<rparr>)"
    using assms(1,2) ne rl by (rule getline_at)
  show ?thesis
    using assms(4,5) by (subst find_loop.simps) (simp add: g Let_def)
qed

subsection \<open>Messages and the failing scan\<close>

lemma c_str_padded: "NUL \<notin> set m \<Longrightarrow> c_str (m @ replicate k NUL) = m"
  by (cases k) (simp_all add: c_str_no_NUL c_str_terminated)

lemma handle_message_id:
  assumes "NUL \<notin> set m" "length m \<le> 40"
  shows "handle_message m = m"
proof -
  have "c_str m = m"
    using assms(1) by (rule c_str_no_NUL)
  then have "strncpy m 40 = m @ replicate (40 - length m) NUL"
    using assms(2) by (simp add: strncpy_def strlen_def)
  then show ?thesis
    using assms(1) by (simp add: handle_message_def c_str_padded)
qed

lemma msg_invalid: "handle_message ''Player name invalid\<newline>'' = ''Player name invalid\<newline>''"
  by (rule handle_message_id) (simp_all add: NUL_def)

lemma msg_open: "handle_message ''File open error'' = ''File open error''"
  by (rule handle_message_id) (simp_all add: NUL_def)

lemma msg_record: "handle_message ''Error found in record\<newline>'' = ''Error found in record\<newline>''"
  by (rule handle_message_id) (simp_all add: NUL_def)

lemma msg_seek: "handle_message ''File seek error\<newline>'' = ''File seek error\<newline>''"
  by (rule handle_message_id) (simp_all add: NUL_def)

lemma msg_write: "handle_message ''Error writing new record\<newline>'' = ''Error writing new record\<newline>''"
  by (rule handle_message_id) (simp_all add: NUL_def)

lemma next_fails_eq:
  "next_fails w = ((case plan w of [] \<Rightarrow> False | f # _ \<Rightarrow> f), w\<lparr>plan := tl (plan w)\<rparr>)"
  by (cases w) (simp add: next_fails_def split: list.splits)

lemma fseek_set_cases:
  "fseek w 0 SEEK_SET = (- 1, w\<lparr>plan := tl (plan w), trace := trace w @ [EvSeek]\<rparr>)
   \<or> fseek w 0 SEEK_SET = (0, w\<lparr>plan := tl (plan w), trace := trace w @ [EvSeek], fpos := 0\<rparr>)"
  by (simp add: fseek_def next_fails_eq Let_def)

lemma find_record_error:
  assumes lines: "\<forall>l \<in> set ls. complete_line l \<and> (length l \<noteq> 21 \<or> match_name nm l = 0)"
    and content: "bytes w = concat ls @ l @ rest"
    and l: "complete_line l \<or> (rest = [] \<and> NL \<notin> set l)" "length l = 21" "match_name nm l = 1"
    and bad: "get_score l = INT_MIN \<or> check_sum (get_score l) d = 0"
  shows "fst (find_record w nm d) = - 1
    \<and> bytes (snd (find_record w nm d)) = bytes w
    \<and> is_open (snd (find_record w nm d)) = is_open w
    \<and> (\<exists>k. trace (snd (find_record w nm d)) = trace w @ EvSeek # replicate k EvRead)"
proof -
  let ?f = "w\<lparr>plan := tl (plan w), trace := trace w @ [EvSeek]\<rparr>"
  let ?w1 = "w\<lparr>plan := tl (plan w), trace := trace w @ [EvSeek], fpos := 0\<rparr>"
  consider (fail) "fseek w 0 SEEK_SET = (- 1, ?f)" | (ok) "fseek w 0 SEEK_SET = (0, ?w1)"
    using fseek_set_cases by blast
  then show ?thesis
  proof cases
    case fail
    have "trace w @ [EvSeek] = trace w @ EvSeek # replicate 0 EvRead" by simp
    then show ?thesis
      unfolding find_record_def fail by (auto simp del: replicate.simps)
  next
    case ok
    let ?w2 = "?w1\<lparr>trace := trace ?w1 @ replicate (length ls) EvRead,
      fpos := length ([] :: char list) + length (concat ls)\<rparr>"
    let ?w3 = "?w2\<lparr>trace := trace ?w2 @ [EvRead], fpos := length (concat ls) + 21\<rparr>"
    have "find_loop nm d ?w1 = find_loop nm d ?w2"
      using lines by (rule find_loop_skip_lines [where rest = "l @ rest"]) (simp_all add: content)
    also have "find_loop nm d ?w2 = (- 1, ?w3)"
      using bad
      by (subst find_loop_match [where pre = "concat ls" and l = l and rest = rest])
         (auto simp: content l Let_def)
    finally have fl: "find_loop nm d ?w1 = (- 1, ?w3)" .
    have "trace ?w3 = trace w @ EvSeek # replicate (Suc (length ls)) EvRead"
      by (simp add: replicate_append_same)
    then show ?thesis
      unfolding find_record_def ok by (auto simp add: fl simp del: replicate.simps)
  qed
qed

subsection \<open>Validation, score ranges and the error path of adjust_score\<close>

lemma validate_loop_iff: "validate_loop cs = 1 \<longleftrightarrow> (\<forall>c \<in> set cs. \<not> isspace c)"
  by (induction cs) auto

lemma validate_name_iff:
  "validate_name p = 1 \<longleftrightarrow> strlen p \<le> 10 \<and> (\<forall>c \<in> set (c_str p). \<not> isspace c)"
  by (auto simp: validate_name_def validate_loop_iff)

lemma adjust_score_opened:
  assumes "validate_name p = 1" "can_open w"
  shows "adjust_score w uid p d =
    (case find_record (w\<lparr>is_open := True, fpos := 0, trace := trace w @ [EvOpen]\<rparr>)
            (name_to_search p) d of
       (find_player, w2) \<Rightarrow>
         if find_player = - 1
           then (0, Some ''Error found in record\<newline>'', fclose w2)
         else if find_player = 0 then
           (case fseek w2 0 SEEK_END of (r, w3) \<Rightarrow>
              if r = - 1 then (0, Some ''File seek error\<newline>'', fclose w3)
              else
                (case write_score w3 (name_to_search p) d SEEK_END 0 of
                   (r2, w4) \<Rightarrow>
                     if r2 \<noteq> 1 then (0, Some ''Error writing new record\<newline>'', fclose w4)
                     else (1, None, fclose w4)))
         else (1, None, fclose w2))"
  using assms
  by (simp add: adjust_score_def fopen_def msg_record msg_seek msg_write split: prod.splits)

lemma score_strtol_valid_range:
  assumes "score_strtol s0 buf = (SCORE_VALID, v)"
  shows "SCORE_LOW_BOUND \<le> v \<and> v \<le> INT_MAX"
proof -
  from assms obtain c t where ct: "c_str buf = c # t" and sp: "\<not> isspace c"
    by (auto simp: score_strtol_def split: list.splits if_splits)
  obtain x e r where st: "strtol (c # t) = (x, e, r)"
    by (cases "strtol (c # t)") auto
  from assms have "SCORE_LOW_BOUND \<le> x \<and> x \<le> INT_MAX \<and> v = to_int x"
    by (auto simp: score_strtol_def ct sp st split: if_splits)
  moreover from this have "to_int x = x"
    by (intro to_int_id) (simp_all add: SCORE_LOW_BOUND_def INT_MIN_def)
  ultimately show ?thesis by simp
qed

lemma get_score_range:
  assumes "get_score l \<noteq> INT_MIN"
  shows "SCORE_LOW_BOUND \<le> get_score l \<and> get_score l \<le> INT_MAX"
proof -
  let ?f = "take FIELD_SIZE (drop 10 l) @ [NUL]"
  obtain e v where sv: "score_strtol 0 ?f = (e, v)"
    by (cases "score_strtol 0 ?f") auto
  from assms have "e = SCORE_VALID \<and> get_score l = v"
    by (auto simp: get_score_def sv Let_def split: if_splits)
  with sv show ?thesis
    using score_strtol_valid_range [of 0 ?f v] by simp
qed

lemma get_score_corrupt:
  assumes "fst (score_strtol 0 (take 10 (drop 10 l) @ [NUL])) \<noteq> SCORE_VALID"
  shows "get_score l = INT_MIN"
  using assms by (auto simp: get_score_def FIELD_SIZE_def Let_def split: prod.splits)

lemma check_sum_out_of_range:
  assumes "SCORE_LOW_BOUND \<le> s" "s \<le> INT_MAX" "INT_MIN \<le> d" "d \<le> INT_MAX"
    "s + d > INT_MAX \<or> s + d < SCORE_LOW_BOUND"
  shows "check_sum s d = 0"
proof -
  have "to_long (s + d) = s + d"
    using assms(1-4)
    by (intro to_long_id) (simp_all add: SCORE_LOW_BOUND_def INT_MAX_def INT_MIN_def LONG_MIN_def LONG_MAX_def)
  with assms(5) show ?thesis
    by (auto simp: check_sum_def Let_def)
qed

lemma check_sum_in_range:
  assumes "SCORE_LOW_BOUND \<le> s" "s \<le> INT_MAX" "INT_MIN \<le> d" "d \<le> INT_MAX"
    "SCORE_LOW_BOUND \<le> s + d" "s + d \<le> INT_MAX"
  shows "check_sum s d = 1"
proof -
  have "to_long (s + d) = s + d"
    using assms(1-4)
    by (intro to_long_id) (simp_all add: SCORE_LOW_BOUND_def INT_MAX_def INT_MIN_def LONG_MIN_def LONG_MAX_def)
  with assms(5,6) show ?thesis
    by (auto simp: check_sum_def Let_def)
qed

lemma adjust_score_record_error:
  assumes name: "validate_name p = 1" and op: "can_open w"
    and lines: "\<forall>x \<in> set ls. complete_line x
        \<and> (length x \<noteq> 21 \<or> match_name (name_to_search p) x = 0)"
    and content: "bytes w = concat ls @ l @ rest"
    and l: "complete_line l \<or> (rest = [] \<and> NL \<notin> set l)" "length l = 21"
      "match_name (name_to_search p) l = 1"
    and bad: "get_score l = INT_MIN \<or> check_sum (get_score l) d = 0"
  shows "fst (find_record (snd (fopen w)) (name_to_search p) d) = - 1
    \<and> (case adjust_score w uid p d of
        (r, m, w') \<Rightarrow> r = 0 \<and> m = Some ''Error found in record\<newline>''
          \<and> bytes w' = bytes w \<and> \<not> is_open w'
          \<and> (\<exists>k. trace w' = trace w @ [EvOpen, EvSeek] @ replicate k EvRead @ [EvClose]))"
proof -
  let ?w1 = "w\<lparr>is_open := True, fpos := 0, trace := trace w @ [EvOpen]\<rparr>"
  let ?nm = "name_to_search p"
  have fo: "snd (fopen w) = ?w1"
    using op by (simp add: fopen_def)
  have c1: "bytes ?w1 = concat ls @ l @ rest"
    using content by simp
  obtain r w2 where fr: "find_record ?w1 ?nm d = (r, w2)"
    by (cases "find_record ?w1 ?nm d") auto
  from find_record_error [OF lines c1 l bad]
  have r: "r = - 1" and b: "bytes w2 = bytes w"
    and k: "\<exists>k. trace w2 = trace ?w1 @ EvSeek # replicate k EvRead"
    by (simp_all add: fr)
  from k obtain k where "trace w2 = trace w @ [EvOpen, EvSeek] @ replicate k EvRead"
    by auto
  then have "trace (fclose w2) = trace w @ [EvOpen, EvSeek] @ replicate k EvRead @ [EvClose]"
    by (simp add: fclose_def)
  then have "\<exists>k. trace (fclose w2) = trace w @ [EvOpen, EvSeek] @ replicate k EvRead @ [EvClose]"
    by blast
  moreover have "bytes (fclose w2) = bytes w" "\<not> is_open (fclose w2)"
    using b by (simp_all add: fclose_def)
  ultimately show ?thesis
    unfolding adjust_score_opened [OF name op] fo fr r by simp
qed

subsection \<open>The updating path of find_record and adjust_score\<close>

lemma find_record_updates:
  assumes pl: "plan w = []"
    and lines: "\<forall>x \<in> set ls. complete_line x \<and> (length x \<noteq> 21 \<or> match_name nm x = 0)"
    and content: "bytes w = concat ls @ l @ rest"
    and l: "complete_line l" "length l = 21" "match_name nm l = 1"
    and s: "get_score l \<noteq> INT_MIN" "check_sum (get_score l) d = 1"
    and nm: "length nm = 10"
  shows "find_record w nm d =
    (1, w\<lparr>bytes := concat ls @ nm @ score_string (to_int (get_score l + d)) @ rest,
          fpos := length (concat ls) + 21,
          trace := trace w @ EvSeek # replicate (Suc (length ls)) EvRead
                   @ [EvSeek, EvWrite, EvWrite]\<rparr>)"
proof -
  let ?w1 = "w\<lparr>trace := trace w @ [EvSeek], fpos := 0\<rparr>"
  let ?w2 = "?w1\<lparr>trace := trace ?w1 @ replicate (length ls) EvRead,
      fpos := length ([] :: char list) + length (concat ls)\<rparr>"
  let ?w3 = "?w2\<lparr>trace := trace ?w2 @ [EvRead], fpos := length (concat ls) + 21\<rparr>"
  have sk: "fseek w 0 SEEK_SET = (0, ?w1)"
    using pl by (rule fseek_set_ok)
  have "find_loop nm d ?w1 = find_loop nm d ?w2"
    using lines by (rule find_loop_skip_lines [where rest = "l @ rest"]) (simp_all add: content)
  also have "find_loop nm d ?w2 =
      (case write_score ?w3 nm (to_int (get_score l + d)) SEEK_CUR (- 21) of
         (r, w4) \<Rightarrow> if r \<noteq> 1 then (- 1, w4) else (1, w4))"
    using s
    by (subst find_loop_match [where pre = "concat ls" and l = l and rest = rest])
       (auto simp: content l Let_def)
  also have "write_score ?w3 nm (to_int (get_score l + d)) SEEK_CUR (- 21) =
      (1, ?w3\<lparr>trace := trace ?w3 @ [EvSeek, EvWrite, EvWrite],
            bytes := concat ls @ nm @ score_string (to_int (get_score l + d)) @ rest,
            fpos := length (concat ls) + 21\<rparr>)"
    using pl nm l(2)
    by (intro write_score_overwrite [where old = l]) (simp_all add: content)
  finally show ?thesis
    unfolding find_record_def sk by (simp add: replicate_append_same)
qed

lemma adjust_score_updates:
  assumes name: "validate_name p = 1" and op: "can_open w" and pl: "plan w = []"
    and lines: "\<forall>x \<in> set ls. complete_line x
        \<and> (length x \<noteq> 21 \<or> match_name (name_to_search p) x = 0)"
    and content: "bytes w = concat ls @ l @ rest"
    and l: "complete_line l" "length l = 21" "match_name (name_to_search p) l = 1"
    and s: "get_score l \<noteq> INT_MIN" "check_sum (get_score l) d = 1"
  shows "adjust_score w uid p d =
    (1, None,
     w\<lparr>bytes := concat ls @ name_to_search p @ score_string (to_int (get_score l + d)) @ rest,
       fpos := length (concat ls) + 21, is_open := False,
       trace := trace w @ [EvOpen, EvSeek] @ replicate (Suc (length ls)) EvRead
                @ [EvSeek, EvWrite, EvWrite, EvClose]\<rparr>)"
proof -
  let ?w1 = "w\<lparr>is_open := True, fpos := 0, trace := trace w @ [EvOpen]\<rparr>"
  have "find_record ?w1 (name_to_search p) d =
    (1, ?w1\<lparr>bytes := concat ls @ name_to_search p
                 @ score_string (to_int (get_score l + d)) @ rest,
          fpos := length (concat ls) + 21,
          trace := trace ?w1 @ EvSeek # replicate (Suc (length ls)) EvRead
                   @ [EvSeek, EvWrite, EvWrite]\<rparr>)"
    by (rule find_record_updates [OF _ lines _ l s])
       (simp_all add: pl content length_name_to_search)
  then show ?thesis
    unfolding adjust_score_opened [OF name op] by (simp add: fclose_def)
qed

subsection \<open>Evaluation on examples\<close>

lemma replicate_numeral_unfold: "replicate (numeral k) x = x # replicate (pred_numeral k) x"
  by (simp add: numeral_eq_Suc)

lemmas eval_defs = NUL_def NL_def FIELD_SIZE_def REC_SIZE_def INT_MAX_def INT_MIN_def
  LONG_MAX_def LONG_MIN_def SCORE_LOW_BOUND_def isspace_def isdigit_def c_str_def strlen_def
  digit_val_def digits_val_def strtol_def score_strtol_def get_score_def complete_line_def
  closed_file_def validate_name_def replicate_numeral_unfold to_int_def Let_def

lemma name_alice: "name_to_search ''alice'' = ''alice'' @ replicate 5 NUL"
  by (simp add: name_to_search_eq c_str_def strlen_def NUL_def)

lemma valid_alice: "validate_name ''alice'' = 1"
  by (simp add: eval_defs)

lemma match_alice: "match_name (name_to_search ''alice'') (''alice'' @ replicate 5 NUL @ xs) = 1"
  using match_name_record [of "''alice''" "''alice''" xs] by (simp add: name_alice)

lemma dec_150: "score_string 150 = ''150'' @ replicate 7 NUL @ [NL]"
  by (simp add: score_string_in_range dec_int_def dec_nat.simps digit_char_def eval_defs)

lemma dec_1: "score_string 1 = ''1'' @ replicate 9 NUL @ [NL]"
  by (simp add: score_string_in_range dec_int_def dec_nat.simps digit_char_def eval_defs)

subsection \<open>The scan that finds nothing and the appending path\<close>

lemma getline_frame:
  assumes "getline w = (x, w1)"
  shows "bytes w1 = bytes w \<and> plan w1 = plan w \<and> is_open w1 = is_open w
    \<and> can_open w1 = can_open w \<and> trace w1 = trace w @ [EvRead]"
  using assms by (auto simp: getline_def Let_def split: if_splits)

lemma find_loop_not_found:
  "find_loop nm d w = (0, w') \<Longrightarrow>
   bytes w' = bytes w \<and> plan w' = plan w \<and> is_open w' = is_open w \<and> can_open w' = can_open w
   \<and> (\<exists>k. trace w' = trace w @ replicate k EvRead)"
proof (induction nm d w rule: find_loop.induct)
  case (1 nm d w)
  obtain x w1 where g: "getline w = (x, w1)"
    by (cases "getline w") auto
  note fr = getline_frame [OF g]
  show ?case
  proof (cases x)
    case None
    with "1.prems" g have "w' = w1"
      by (subst (asm) find_loop.simps) simp
    moreover have "trace w @ [EvRead] = trace w @ replicate 1 EvRead"
      by simp
    ultimately show ?thesis
      using fr by (metis)
  next
    case (Some l)
    have rec: "find_loop nm d w1 = (0, w')"
      using "1.prems" g Some
      by (subst (asm) find_loop.simps) (auto simp: Let_def split: if_splits prod.splits)
    have skip: "length l \<noteq> 21 \<or> (\<not> length l \<noteq> 21 \<and> \<not> match_name nm l \<noteq> 0)"
      using "1.prems" g Some
      by (subst (asm) find_loop.simps) (auto simp: Let_def split: if_splits prod.splits)
    have ih: "bytes w' = bytes w1 \<and> plan w' = plan w1 \<and> is_open w' = is_open w1
        \<and> can_open w' = can_open w1 \<and> (\<exists>k. trace w' = trace w1 @ replicate k EvRead)"
    proof (cases "length l \<noteq> 21")
      case True
      then show ?thesis
        using "1.IH"(1) [OF g [symmetric] Some _ rec] by blast
    next
      case False
      with skip have "\<not> match_name nm l \<noteq> 0"
        by blast
      with False show ?thesis
        using "1.IH"(2) [OF g [symmetric] Some _ _ rec] by blast
    qed
    then obtain k where "trace w' = trace w1 @ replicate k EvRead"
      by blast
    then have "trace w' = trace w @ replicate (Suc k) EvRead"
      using fr by (simp add: replicate_append_same)
    then have "\<exists>k. trace w' = trace w @ replicate k EvRead"
      by blast
    with ih fr show ?thesis
      by simp
  qed
qed

lemma find_record_not_found:
  assumes "find_record w nm d = (0, w')" "plan w = []"
  shows "bytes w' = bytes w \<and> plan w' = [] \<and> is_open w' = is_open w
    \<and> can_open w' = can_open w
    \<and> (\<exists>k. trace w' = trace w @ EvSeek # replicate k EvRead)"
proof -
  let ?w1 = "w\<lparr>trace := trace w @ [EvSeek], fpos := 0\<rparr>"
  have sk: "fseek w 0 SEEK_SET = (0, ?w1)"
    using assms(2) by (rule fseek_set_ok)
  with assms(1) have "find_loop nm d ?w1 = (0, w')"
    by (simp add: find_record_def)
  from find_loop_not_found [OF this] assms(2) show ?thesis
    by simp
qed

lemma adjust_score_appends:
  assumes name: "validate_name p = 1" and op: "can_open w" and pl: "plan w = []"
    and miss: "fst (find_record (snd (fopen w)) (name_to_search p) d) = 0"
  shows "case adjust_score w uid p d of
      (r, m, w') \<Rightarrow> r = 1 \<and> m = None
        \<and> bytes w' = bytes w @ name_to_search p @ score_string d \<and> \<not> is_open w'
        \<and> can_open w' \<and> plan w' = []
        \<and> (\<exists>k. trace w' = trace w @ [EvOpen, EvSeek] @ replicate k EvRead
                  @ [EvSeek, EvSeek, EvWrite, EvWrite, EvClose])"
proof -
  let ?w1 = "w\<lparr>is_open := True, fpos := 0, trace := trace w @ [EvOpen]\<rparr>"
  let ?nm = "name_to_search p"
  have fo: "snd (fopen w) = ?w1"
    using op by (simp add: fopen_def)
  obtain w2 where fr: "find_record ?w1 ?nm d = (0, w2)"
    using miss unfolding fo by (cases "find_record ?w1 ?nm d") auto
  from find_record_not_found [OF fr] pl
  have b: "bytes w2 = bytes w" and p2: "plan w2 = []" and c2: "can_open w2"
    and k: "\<exists>k. trace w2 = trace ?w1 @ EvSeek # replicate k EvRead"
    using op by simp_all
  from k obtain k where t2: "trace w2 = trace w @ [EvOpen, EvSeek] @ replicate k EvRead"
    by auto
  let ?w3 = "w2\<lparr>trace := trace w2 @ [EvSeek], fpos := length (bytes w)\<rparr>"
  have s3: "fseek w2 0 SEEK_END = (0, ?w3)"
    using fseek_end_ok [OF p2] by (simp add: b)
  have ws: "write_score ?w3 ?nm d SEEK_END 0 =
    (1, ?w3\<lparr>trace := trace ?w3 @ [EvSeek, EvWrite, EvWrite],
          bytes := bytes ?w3 @ ?nm @ score_string d,
          fpos := length (bytes ?w3) + 21\<rparr>)"
    by (rule write_score_append) (simp_all add: p2 length_name_to_search)
  have "\<exists>k. trace w2 @ [EvSeek, EvSeek, EvWrite, EvWrite, EvClose]
      = trace w @ [EvOpen, EvSeek] @ replicate k EvRead
        @ [EvSeek, EvSeek, EvWrite, EvWrite, EvClose]"
    using t2 by auto
  then show ?thesis
    unfolding adjust_score_opened [OF name op] fr
    by (simp add: s3 ws fclose_def b p2 c2)
qed

subsection \<open>A numeric prefix followed by another character\<close>

lemma takeWhile_prefix: "\<forall>d \<in> set ds. P d \<Longrightarrow> \<not> P c \<Longrightarrow> takeWhile P (ds @ c # t) = ds"
  by (induction ds) auto

lemma dropWhile_prefix: "\<forall>d \<in> set ds. P d \<Longrightarrow> \<not> P c \<Longrightarrow> dropWhile P (ds @ c # t) = c # t"
  by (induction ds) auto

lemma strtol_numeric_prefix:
  assumes sg: "sg \<in> {[], ''+'', ''-''}" and ds: "ds \<noteq> []" "\<forall>d \<in> set ds. isdigit d"
    and c: "\<not> isdigit c"
  shows "strtol (sg @ ds @ c # t) =
    (let x = (if sg = ''-'' then - int (digits_val ds) else int (digits_val ds))
     in if x > LONG_MAX then (LONG_MAX, c # t, True)
        else if x < LONG_MIN then (LONG_MIN, c # t, True)
        else (x, c # t, False))"
proof -
  obtain d ds' where d: "ds = d # ds'"
    using ds(1) by (cases ds) auto
  have dd: "isdigit d"
    using ds(2) d by simp
  have nd: "\<not> isspace d" "d \<noteq> CHR ''-''" "d \<noteq> CHR ''+''"
    using dd isdigit_not_isspace isdigit_not_sign by auto
  have tw: "takeWhile isdigit (ds @ c # t) = ds"
    using ds(2) c by (rule takeWhile_prefix)
  have dw: "dropWhile isdigit (ds @ c # t) = c # t"
    using ds(2) c by (rule dropWhile_prefix)
  have sp: "\<not> isspace (CHR ''-'')" "\<not> isspace (CHR ''+'')"
    by (simp_all add: isspace_def)
  consider "sg = []" | "sg = ''+''" | "sg = ''-''"
    using sg by auto
  then show ?thesis
  proof cases
    case 1
    have "strtol (ds @ c # t) =
      (let x = int (digits_val ds)
       in if x > LONG_MAX then (LONG_MAX, c # t, True)
          else if x < LONG_MIN then (LONG_MIN, c # t, True)
          else (x, c # t, False))"
      using ds(1) tw dw nd unfolding strtol_def d
      by (simp add: Let_def del: takeWhile.simps dropWhile.simps
          add: dropWhile.simps(2) [of isspace])
    with 1 show ?thesis by simp
  next
    case 2
    have "strtol (CHR ''+'' # ds @ c # t) =
      (let x = int (digits_val ds)
       in if x > LONG_MAX then (LONG_MAX, c # t, True)
          else if x < LONG_MIN then (LONG_MIN, c # t, True)
          else (x, c # t, False))"
      using ds(1) sp unfolding strtol_def
      by (simp add: Let_def tw dw)
    with 2 show ?thesis by simp
  next
    case 3
    have "strtol (CHR ''-'' # ds @ c # t) =
      (let x = - int (digits_val ds)
       in if x > LONG_MAX then (LONG_MAX, c # t, True)
          else if x < LONG_MIN then (LONG_MIN, c # t, True)
          else (x, c # t, False))"
      using ds(1) sp unfolding strtol_def
      by (simp add: Let_def tw dw)
    with 3 show ?thesis by simp
  qed
qed

lemma score_strtol_numeric_prefix:
  assumes cs: "c_str s = sg @ ds @ c # t"
    and sg: "sg \<in> {[], ''+'', ''-''}" and ds: "ds \<noteq> []" "\<forall>d \<in> set ds. isdigit d"
    and c: "\<not> isdigit c"
  shows "fst (score_strtol s0 s) =
    (if (if sg = ''-'' then - int (digits_val ds) else int (digits_val ds)) > INT_MAX
       then SCORE_OVERFLOW
     else if (if sg = ''-'' then - int (digits_val ds) else int (digits_val ds)) < SCORE_LOW_BOUND
       then SCORE_UNDERFLOW
     else SCORE_INVALID)"
proof -
  let ?x = "if sg = ''-'' then - int (digits_val ds) else int (digits_val ds)"
  obtain h r where hr: "sg @ ds @ c # t = h # r"
    by (cases "sg @ ds @ c # t") auto
  have "h = CHR ''-'' \<or> h = CHR ''+'' \<or> isdigit h"
    using hr sg ds by (cases ds) auto
  then have h: "\<not> isspace h"
    using isdigit_not_isspace by (auto simp: isspace_def)
  have st: "strtol (h # r) =
    (if ?x > LONG_MAX then (LONG_MAX, c # t, True)
     else if ?x < LONG_MIN then (LONG_MIN, c # t, True)
     else (?x, c # t, False))"
    using strtol_numeric_prefix [OF sg ds c, of t] unfolding hr by (simp add: Let_def)
  show ?thesis
    unfolding score_strtol_def cs hr using h
    by (simp add: st LONG_MAX_def LONG_MIN_def INT_MAX_def SCORE_LOW_BOUND_def)
qed

subsection \<open>Calls on the open stream\<close>

text \<open>What a call on the open stream does to the state of the handle and to the trace.\<close>

lemma stream_step_iff:
  "stream_step w w' \<longleftrightarrow>
    is_open w' = is_open w
    \<and> (\<exists>es. trace w' = trace w @ es \<and> set es \<subseteq> {EvSeek, EvRead, EvWrite})"
proof
  assume s: "stream_step w w'"
  then have "trace w' = trace w @ drop (length (trace w)) (trace w')"
    by (metis append_take_drop_id stream_step_def)
  with s show "is_open w' = is_open w
    \<and> (\<exists>es. trace w' = trace w @ es \<and> set es \<subseteq> {EvSeek, EvRead, EvWrite})"
    unfolding stream_step_def by blast
next
  assume "is_open w' = is_open w
    \<and> (\<exists>es. trace w' = trace w @ es \<and> set es \<subseteq> {EvSeek, EvRead, EvWrite})"
  then show "stream_step w w'"
    by (auto simp: stream_step_def)
qed

lemma stream_step_trans:
  assumes "stream_step a b" "stream_step b c"
  shows "stream_step a c"
proof -
  from assms obtain es fs where "trace b = trace a @ es" "set es \<subseteq> {EvSeek, EvRead, EvWrite}"
    "trace c = trace b @ fs" "set fs \<subseteq> {EvSeek, EvRead, EvWrite}"
    unfolding stream_step_iff by blast
  then have "trace c = trace a @ (es @ fs) \<and> set (es @ fs) \<subseteq> {EvSeek, EvRead, EvWrite}"
    by simp
  then have "\<exists>gs. trace c = trace a @ gs \<and> set gs \<subseteq> {EvSeek, EvRead, EvWrite}"
    by blast
  with assms show ?thesis
    unfolding stream_step_iff by simp
qed

lemma stream_step_fseek: "fseek w off wh = (r, w') \<Longrightarrow> stream_step w w'"
  by (auto simp: fseek_def next_fails_eq Let_def stream_step_def split: if_splits)

lemma stream_step_fwrite: "fwrite w data = (n, w') \<Longrightarrow> stream_step w w'"
  by (auto simp: fwrite_def next_fails_eq Let_def stream_step_def split: if_splits)

lemma stream_step_getline: "getline w = (x, w') \<Longrightarrow> stream_step w w'"
  by (auto simp: getline_def Let_def stream_step_def split: if_splits)

lemma stream_step_write_score:
  assumes "write_score w nm v wh off = (r, w')"
  shows "stream_step w w'"
proof -
  obtain r1 w1 where s: "fseek w off wh = (r1, w1)"
    by (cases "fseek w off wh") auto
  obtain n1 w2 where f1: "fwrite w1 (take FIELD_SIZE nm) = (n1, w2)"
    by (cases "fwrite w1 (take FIELD_SIZE nm)") auto
  obtain n2 w3 where f2: "fwrite w2 (score_string v) = (n2, w3)"
    by (cases "fwrite w2 (score_string v)") auto
  have a: "stream_step w w1" "stream_step w w2" "stream_step w w3"
    using stream_step_fseek [OF s] stream_step_fwrite [OF f1] stream_step_fwrite [OF f2]
      stream_step_trans by blast+
  from assms have "w' = w1 \<or> w' = w2 \<or> w' = w3"
    by (auto simp: write_score_def snprintf_ret_def s f1 f2 split: if_splits)
  with a show ?thesis by blast
qed

lemma stream_step_find_loop: "find_loop nm d w = (r, w') \<Longrightarrow> stream_step w w'"
proof (induction nm d w rule: find_loop.induct)
  case (1 nm d w)
  obtain x w1 where g: "getline w = (x, w1)"
    by (cases "getline w") auto
  have s1: "stream_step w w1"
    using g by (rule stream_step_getline)
  show ?case
  proof (cases x)
    case None
    with "1.prems" g have "w' = w1"
      by (subst (asm) find_loop.simps) simp
    with s1 show ?thesis by simp
  next
    case (Some l)
    note prem = "1.prems" [unfolded find_loop.simps [of nm d w] g Some, simplified]
    show ?thesis
    proof (cases "length l \<noteq> 21")
      case True
      with prem have "find_loop nm d w1 = (r, w')"
        by simp
      then have "stream_step w1 w'"
        using "1.IH"(1) [OF g [symmetric] Some True] by blast
      with s1 show ?thesis
        by (rule stream_step_trans)
    next
      case len: False
      show ?thesis
      proof (cases "match_name nm l \<noteq> 0")
        case False
        with prem len have "find_loop nm d w1 = (r, w')"
          by simp
        then have "stream_step w1 w'"
          using "1.IH"(2) [OF g [symmetric] Some len False] by blast
        with s1 show ?thesis
          by (rule stream_step_trans)
      next
        case True
        obtain r2 w2 where ws: "write_score w1 nm (to_int (get_score l + d)) SEEK_CUR (- 21) = (r2, w2)"
          by (cases "write_score w1 nm (to_int (get_score l + d)) SEEK_CUR (- 21)") auto
        from prem len True have "w' = w1 \<or> w' = w2"
          by (auto simp: Let_def ws split: if_splits)
        moreover have "stream_step w w2"
          using s1 stream_step_write_score [OF ws] by (rule stream_step_trans)
        ultimately show ?thesis
          using s1 by blast
      qed
    qed
  qed
qed

lemma stream_step_find_record: "find_record w nm d = (r, w') \<Longrightarrow> stream_step w w'"
proof -
  assume a: "find_record w nm d = (r, w')"
  obtain r1 w1 where s: "fseek w 0 SEEK_SET = (r1, w1)"
    by (cases "fseek w 0 SEEK_SET") auto
  have s1: "stream_step w w1"
    using s by (rule stream_step_fseek)
  show "stream_step w w'"
  proof (cases "r1 = - 1")
    case True
    with a s have "w' = w1"
      by (simp add: find_record_def)
    with s1 show ?thesis by simp
  next
    case False
    with a s have "find_loop nm d w1 = (r, w')"
      by (simp add: find_record_def)
    then have "stream_step w1 w'"
      by (rule stream_step_find_loop)
    with s1 show ?thesis
      by (rule stream_step_trans)
  qed
qed

lemma closed_after:
  assumes "stream_step (w\<lparr>is_open := True, fpos := 0, trace := trace w @ [EvOpen]\<rparr>) w2"
  shows "\<not> is_open (fclose w2)
    \<and> (\<exists>es. trace (fclose w2) = trace w @ EvOpen # es @ [EvClose]
          \<and> set es \<subseteq> {EvSeek, EvRead, EvWrite})"
proof -
  from assms obtain es where "trace w2 = (trace w @ [EvOpen]) @ es"
    "set es \<subseteq> {EvSeek, EvRead, EvWrite}"
    unfolding stream_step_iff by auto
  then have "trace (fclose w2) = trace w @ EvOpen # es @ [EvClose]
      \<and> set es \<subseteq> {EvSeek, EvRead, EvWrite}"
    by (simp add: fclose_def)
  then show ?thesis
    by (auto simp: fclose_def)
qed

subsection \<open>A file without the player, and the record written for a valid name\<close>

lemma find_record_misses:
  assumes pl: "plan w = []"
    and lines: "\<forall>x \<in> set ls. complete_line x \<and> (length x \<noteq> 21 \<or> match_name nm x = 0)"
    and content: "bytes w = concat ls"
  shows "fst (find_record w nm d) = 0"
proof -
  let ?w1 = "w\<lparr>trace := trace w @ [EvSeek], fpos := 0\<rparr>"
  let ?w2 = "?w1\<lparr>trace := trace ?w1 @ replicate (length ls) EvRead,
      fpos := length ([] :: char list) + length (concat ls)\<rparr>"
  have sk: "fseek w 0 SEEK_SET = (0, ?w1)"
    using pl by (rule fseek_set_ok)
  have "find_loop nm d ?w1 = find_loop nm d ?w2"
    using lines by (rule find_loop_skip_lines [where rest = "[]"]) (simp_all add: content)
  also have "find_loop nm d ?w2 = (0, ?w2\<lparr>trace := trace ?w2 @ [EvRead]\<rparr>)"
    by (rule find_loop_eof) (simp add: content)
  finally show ?thesis
    by (simp add: find_record_def sk)
qed

lemma valid_name_no_NL:
  assumes "validate_name p = 1"
  shows "NL \<notin> set (name_to_search p)"
proof -
  have "\<forall>c \<in> set (c_str p). \<not> isspace c"
    using assms by (simp add: validate_name_iff)
  moreover have "isspace NL"
    by (simp add: isspace_def NL_def)
  ultimately have "NL \<notin> set (c_str p)"
    by blast
  then have "NL \<notin> set (take 9 (c_str p))"
    using set_take_subset [of 9 "c_str p"] by blast
  then show ?thesis
    by (auto simp: name_to_search_eq NUL_def NL_def)
qed

lemma dec_int_no_NL: "NL \<notin> set (dec_int v)"
proof -
  have "\<not> isdigit NL"
    by (simp add: isdigit_def NL_def)
  then show ?thesis
    using dec_nat_digits by (auto simp: dec_int_def NL_def)
qed

lemma complete_record:
  assumes "validate_name p = 1" "SCORE_LOW_BOUND \<le> v" "v \<le> INT_MAX"
  shows "complete_line (name_to_search p @ score_string v)"
proof -
  let ?body = "name_to_search p @ dec_int v @ replicate (10 - length (dec_int v)) NUL"
  have eq: "name_to_search p @ score_string v = ?body @ [NL]"
    using score_string_in_range [OF assms(2,3)] by simp
  have nb: "NL \<notin> set ?body"
    using valid_name_no_NL [OF assms(1)] dec_int_no_NL [of v] by (auto simp: NUL_def NL_def)
  have "?body @ [NL] \<noteq> [] \<and> last (?body @ [NL]) = NL \<and> NL \<notin> set (butlast (?body @ [NL]))"
    using nb by (simp only: butlast_snoc last_snoc) simp
  then show ?thesis
    unfolding eq complete_line_def .
qed

subsection \<open>Two calls in a row\<close>

lemma adjust_score_twice:
  assumes vp: "validate_name p = 1" and vq: "validate_name q = 1"
    and same: "name_to_search q = name_to_search p"
    and op: "can_open w" and pl: "plan w = []"
    and content: "bytes w = concat ls"
    and lines: "\<forall>x \<in> set ls. complete_line x
        \<and> (length x \<noteq> 21 \<or> match_name (name_to_search p) x = 0)"
    and d1: "SCORE_LOW_BOUND \<le> d1" "d1 \<le> INT_MAX"
    and d2: "INT_MIN \<le> d2" "d2 \<le> INT_MAX"
    and sum: "SCORE_LOW_BOUND \<le> d1 + d2" "d1 + d2 \<le> INT_MAX"
  shows "case adjust_score w uid p d1 of
      (r1, m1, w1) \<Rightarrow>
        r1 = 1 \<and> m1 = None \<and> bytes w1 = bytes w @ name_to_search p @ score_string d1
        \<and> get_score (name_to_search p @ score_string d1) = d1
        \<and> (case adjust_score w1 uid q d2 of
            (r2, m2, w2) \<Rightarrow>
              r2 = 1 \<and> m2 = None
              \<and> bytes w2 = bytes w @ name_to_search p @ score_string (d1 + d2)
              \<and> get_score (name_to_search p @ score_string (d1 + d2)) = d1 + d2
              \<and> length (bytes w2) = length (bytes w1))"
proof -
  let ?nm = "name_to_search p"
  let ?rec = "?nm @ score_string d1"
  obtain r1 m1 w1 where a1: "adjust_score w uid p d1 = (r1, m1, w1)"
    by (cases "adjust_score w uid p d1") auto
  have miss: "fst (find_record (snd (fopen w)) ?nm d1) = 0"
    using op pl content by (intro find_record_misses [OF _ lines]) (simp_all add: fopen_def)
  from adjust_score_appends [OF vp op pl miss, of uid]
  have r1: "r1 = 1" and m1: "m1 = None" and b1: "bytes w1 = concat ls @ ?rec @ []"
    and o1: "can_open w1" and p1: "plan w1 = []"
    by (simp_all add: a1 content)
  have g1: "get_score ?rec = d1"
    using d1 length_name_to_search by (rule get_score_score_string)
  have cl: "complete_line ?rec"
    using vp d1 by (rule complete_record)
  have len: "length ?rec = 21"
    by (simp add: length_name_to_search length_score_string)
  have m: "match_name (name_to_search q) ?rec = 1"
    by (simp add: same match_name_record)
  have lines_q: "\<forall>x \<in> set ls. complete_line x
        \<and> (length x \<noteq> 21 \<or> match_name (name_to_search q) x = 0)"
    using lines by (simp add: same)
  have ne: "get_score ?rec \<noteq> INT_MIN"
    using g1 d1(1) by (simp add: SCORE_LOW_BOUND_def INT_MIN_def)
  have cs: "check_sum (get_score ?rec) d2 = 1"
    unfolding g1 using d1 d2 sum by (intro check_sum_in_range)
  have ti: "to_int (d1 + d2) = d1 + d2"
    using sum by (intro to_int_id) (simp_all add: SCORE_LOW_BOUND_def INT_MIN_def)
  have a2: "adjust_score w1 uid q d2 =
    (1, None,
     w1\<lparr>bytes := concat ls @ name_to_search q @ score_string (to_int (get_score ?rec + d2)) @ [],
       fpos := length (concat ls) + 21, is_open := False,
       trace := trace w1 @ [EvOpen, EvSeek] @ replicate (Suc (length ls)) EvRead
                @ [EvSeek, EvWrite, EvWrite, EvClose]\<rparr>)"
    using vq o1 p1 lines_q b1 cl len m ne cs by (rule adjust_score_updates)
  have g2: "get_score (?nm @ score_string (d1 + d2)) = d1 + d2"
    using sum length_name_to_search by (rule get_score_score_string)
  show ?thesis
    using r1 m1 b1 g1 g2
    by (simp add: a1 a2 ti same content length_name_to_search length_score_string)
qed

section \<open>Properties of the program\<close>

subsection \<open>Round trip of a record\<close>

text \<open>
  C1. For every name of 1 to 9 bytes that are neither null nor whitespace, and every score
  from \<open>SCORE_LOW_BOUND\<close> to \<open>INT_MAX\<close>, the record \<open>write_score\<close> appends is
  21 bytes long: the name and null bytes up to 10 bytes, the decimal text of the score and
  null bytes up to 10 bytes, and a newline. Reading the name field back as a C string
  gives the name, \<open>match_name\<close> accepts the record for that name, and \<open>get_score\<close>
  returns the score.
\<close>

theorem record_round_trip:
  assumes "1 \<le> length p" "length p \<le> 9" "\<forall>c \<in> set p. c \<noteq> NUL \<and> \<not> isspace c"
    and "SCORE_LOW_BOUND \<le> v" "v \<le> INT_MAX"
    and "plan w = []"
  shows "case write_score w (name_to_search p) v SEEK_END 0 of
      (r, w') \<Rightarrow>
        (let record = drop (length (bytes w)) (bytes w')
         in r = 1 \<and> length record = 21
            \<and> record = p @ replicate (10 - length p) NUL
                 @ dec_int v @ replicate (10 - length (dec_int v)) NUL @ [NL]
            \<and> c_str (take 10 record) = p
            \<and> match_name (name_to_search p) record = 1
            \<and> get_score record = v)"
proof -
  let ?nm = "name_to_search p"
  let ?rec = "?nm @ score_string v"
  have nul: "NUL \<notin> set p"
    using assms(3) by auto
  then have cp: "c_str p = p"
    by (rule c_str_no_NUL)
  have len: "length ?nm = 10"
    by (rule length_name_to_search)
  have w: "write_score w ?nm v SEEK_END 0 =
    (1, w\<lparr>trace := trace w @ [EvSeek, EvWrite, EvWrite],
          bytes := bytes w @ ?rec, fpos := length (bytes w) + 21\<rparr>)"
    using assms(6) len by (rule write_score_append)
  have l21: "length ?rec = 21"
    by (simp add: len length_score_string)
  have nm: "?nm = p @ replicate (10 - length p) NUL"
    using assms(2) by (simp add: name_to_search_eq cp strlen_def min_def)
  have layout: "?rec = p @ replicate (10 - length p) NUL
      @ dec_int v @ replicate (10 - length (dec_int v)) NUL @ [NL]"
    using score_string_in_range [OF assms(4,5)] by (simp add: nm)
  have "c_str ?nm = p"
    using assms(2) by (simp add: c_str_name_to_search cp)
  then have name: "c_str (take 10 ?rec) = p"
    by (simp add: len)
  have m: "match_name ?nm ?rec = 1"
    by (simp add: match_name_record)
  have g: "get_score ?rec = v"
    using assms(4,5) len by (rule get_score_score_string)
  show ?thesis
    unfolding w using l21 layout name m g by (simp add: Let_def)
qed

theorem record_round_trip_witness:
  "case write_score (closed_file []) (name_to_search ''alice'') (- 999999999) SEEK_END 0 of
      (r, w') \<Rightarrow>
        (let record = drop (length (bytes (closed_file []))) (bytes w')
         in r = 1 \<and> length record = 21
            \<and> record = ''alice'' @ replicate (10 - length ''alice'') NUL
                 @ dec_int (- 999999999) @ replicate (10 - length (dec_int (- 999999999))) NUL @ [NL]
            \<and> c_str (take 10 record) = ''alice''
            \<and> match_name (name_to_search ''alice'') record = 1
            \<and> get_score record = - 999999999)"
  by (rule record_round_trip)
    (simp_all add: closed_file_def NUL_def isspace_def SCORE_LOW_BOUND_def INT_MAX_def)

subsection \<open>A faulty score in the matching record\<close>

text \<open>
  C6. When the first line of 21 bytes whose name field matches the name searched for has a
  score field that \<open>score_strtol\<close> does not accept, \<open>find_record\<close> returns -1,
  \<open>adjust_score\<close> returns 0 with the message of a faulty record, the bytes of the file are
  unchanged and the calls on the stream between opening and closing it are one seek and
  reads: nothing is written. This holds whatever seek or write failures are planned, and
  also when the matching line is the last of the file and lacks its newline.
\<close>

theorem corrupt_score_aborts:
  assumes "validate_name p = 1" "can_open w"
    and "bytes w = concat ls @ l @ rest"
    and "\<forall>x \<in> set ls. complete_line x
        \<and> (length x \<noteq> 21 \<or> match_name (name_to_search p) x = 0)"
    and "complete_line l \<or> (rest = [] \<and> NL \<notin> set l)" "length l = 21"
    and "match_name (name_to_search p) l = 1"
    and "fst (score_strtol 0 (take 10 (drop 10 l) @ [NUL])) \<noteq> SCORE_VALID"
  shows "fst (find_record (snd (fopen w)) (name_to_search p) d) = - 1
    \<and> (case adjust_score w uid p d of
        (r, m, w') \<Rightarrow> r = 0 \<and> m = Some ''Error found in record\<newline>''
          \<and> bytes w' = bytes w \<and> \<not> is_open w'
          \<and> (\<exists>k. trace w' = trace w @ [EvOpen, EvSeek] @ replicate k EvRead @ [EvClose]))"
proof -
  have "get_score l = INT_MIN"
    using assms(8) by (rule get_score_corrupt)
  then have "get_score l = INT_MIN \<or> check_sum (get_score l) d = 0"
    by simp
  with assms(1,2,4,3,5,6,7) show ?thesis
    by (rule adjust_score_record_error)
qed

theorem corrupt_score_aborts_witness:
  "fst (find_record
          (snd (fopen (closed_file (''alice'' @ replicate 5 NUL @ ''12x'' @ replicate 7 NUL @ [NL]))))
          (name_to_search ''alice'') 50) = - 1
    \<and> (case adjust_score
              (closed_file (''alice'' @ replicate 5 NUL @ ''12x'' @ replicate 7 NUL @ [NL]))
              1001 ''alice'' 50 of
        (r, m, w') \<Rightarrow> r = 0 \<and> m = Some ''Error found in record\<newline>''
          \<and> bytes w' = bytes (closed_file (''alice'' @ replicate 5 NUL @ ''12x'' @ replicate 7 NUL @ [NL]))
          \<and> \<not> is_open w'
          \<and> (\<exists>k. trace w' = trace (closed_file (''alice'' @ replicate 5 NUL @ ''12x'' @ replicate 7 NUL @ [NL]))
                @ [EvOpen, EvSeek] @ replicate k EvRead @ [EvClose]))"
proof (rule corrupt_score_aborts [where ls = "[]" and rest = "[]"
      and l = "''alice'' @ replicate 5 NUL @ ''12x'' @ replicate 7 NUL @ [NL]"])
  show "validate_name ''alice'' = 1"
    by (rule valid_alice)
  show "match_name (name_to_search ''alice'')
      (''alice'' @ replicate 5 NUL @ ''12x'' @ replicate 7 NUL @ [NL]) = 1"
    by (rule match_alice)
  show "fst (score_strtol 0
      (take 10 (drop 10 (''alice'' @ replicate 5 NUL @ ''12x'' @ replicate 7 NUL @ [NL])) @ [NUL]))
      \<noteq> SCORE_VALID"
    by (simp add: eval_defs)
qed (simp_all add: eval_defs)

subsection \<open>A sum outside the range of scores\<close>

text \<open>
  C2, for the first matching record. When the first line of 21 bytes that matches the name of the player is a
  complete record with stored score \<open>s\<close>, and \<open>s + delta\<close> lies above \<open>INT_MAX\<close> or below
  \<open>SCORE_LOW_BOUND\<close>, \<open>adjust_score\<close> returns 0 with the message it also gives for a faulty
  record, the bytes of the file are unchanged and nothing is written.
\<close>

theorem out_of_range_sum_aborts:
  assumes "validate_name p = 1" "can_open w"
    and "bytes w = concat ls @ l @ rest"
    and "\<forall>x \<in> set ls. complete_line x
        \<and> (length x \<noteq> 21 \<or> match_name (name_to_search p) x = 0)"
    and "complete_line l" "length l = 21" "match_name (name_to_search p) l = 1"
    and "get_score l = s" "s \<noteq> INT_MIN"
    and "INT_MIN \<le> delta" "delta \<le> INT_MAX"
    and "s + delta > INT_MAX \<or> s + delta < SCORE_LOW_BOUND"
  shows "case adjust_score w uid p delta of
        (r, m, w') \<Rightarrow> r = 0 \<and> m = Some ''Error found in record\<newline>''
          \<and> bytes w' = bytes w \<and> \<not> is_open w'
          \<and> (\<exists>k. trace w' = trace w @ [EvOpen, EvSeek] @ replicate k EvRead @ [EvClose])"
proof -
  have "SCORE_LOW_BOUND \<le> s \<and> s \<le> INT_MAX"
    using get_score_range [of l] assms(8,9) by simp
  then have "check_sum s delta = 0"
    using assms(10-12) by (intro check_sum_out_of_range) simp_all
  then have bad: "get_score l = INT_MIN \<or> check_sum (get_score l) delta = 0"
    using assms(8) by simp
  have l: "complete_line l \<or> (rest = [] \<and> NL \<notin> set l)"
    using assms(5) by simp
  from adjust_score_record_error [OF assms(1,2,4,3) l assms(6,7) bad]
  show ?thesis by simp
qed

theorem out_of_range_sum_aborts_witness:
  "case adjust_score (closed_file (''alice'' @ replicate 5 NUL @ ''2147483647'' @ [NL]))
          1001 ''alice'' 1 of
        (r, m, w') \<Rightarrow> r = 0 \<and> m = Some ''Error found in record\<newline>''
          \<and> bytes w' = bytes (closed_file (''alice'' @ replicate 5 NUL @ ''2147483647'' @ [NL]))
          \<and> \<not> is_open w'
          \<and> (\<exists>k. trace w' = trace (closed_file (''alice'' @ replicate 5 NUL @ ''2147483647'' @ [NL]))
                @ [EvOpen, EvSeek] @ replicate k EvRead @ [EvClose])"
proof (rule out_of_range_sum_aborts [where ls = "[]" and rest = "[]" and s = 2147483647
      and l = "''alice'' @ replicate 5 NUL @ ''2147483647'' @ [NL]"])
  show "validate_name ''alice'' = 1"
    by (rule valid_alice)
  show "match_name (name_to_search ''alice'') (''alice'' @ replicate 5 NUL @ ''2147483647'' @ [NL]) = 1"
    by (rule match_alice)
qed (simp_all add: eval_defs)

text \<open>
  C2 does not hold of every record of the player: the scan stops at the first one.
  Here the file holds a record of alice with score 0 and then a complete record of alice
  with score \<open>INT_MAX\<close>; adjusting alice by 1 succeeds and rewrites the first record.
\<close>

theorem out_of_range_sum_counterexample:
  "complete_line (''alice'' @ replicate 5 NUL @ ''2147483647'' @ [NL])
   \<and> match_name (name_to_search ''alice'') (''alice'' @ replicate 5 NUL @ ''2147483647'' @ [NL]) = 1
   \<and> get_score (''alice'' @ replicate 5 NUL @ ''2147483647'' @ [NL]) = INT_MAX
   \<and> INT_MAX + 1 > INT_MAX
   \<and> fst (adjust_score
        (closed_file ((''alice'' @ replicate 5 NUL @ ''0'' @ replicate 9 NUL @ [NL])
                      @ (''alice'' @ replicate 5 NUL @ ''2147483647'' @ [NL])))
        1001 ''alice'' 1) = 1
   \<and> bytes (snd (snd (adjust_score
        (closed_file ((''alice'' @ replicate 5 NUL @ ''0'' @ replicate 9 NUL @ [NL])
                      @ (''alice'' @ replicate 5 NUL @ ''2147483647'' @ [NL])))
        1001 ''alice'' 1)))
     = (''alice'' @ replicate 5 NUL @ ''1'' @ replicate 9 NUL @ [NL])
       @ (''alice'' @ replicate 5 NUL @ ''2147483647'' @ [NL])"
proof -
  let ?r0 = "''alice'' @ replicate 5 NUL @ ''0'' @ replicate 9 NUL @ [NL]"
  let ?rmax = "''alice'' @ replicate 5 NUL @ ''2147483647'' @ [NL]"
  have g0: "get_score ?r0 = 0"
    by (simp add: eval_defs)
  have "adjust_score (closed_file (?r0 @ ?rmax)) 1001 ''alice'' 1 =
    (1, None,
     (closed_file (?r0 @ ?rmax))\<lparr>bytes := concat [] @ name_to_search ''alice''
          @ score_string (to_int (get_score ?r0 + 1)) @ ?rmax,
       fpos := length (concat ([] :: char list list)) + 21, is_open := False,
       trace := trace (closed_file (?r0 @ ?rmax)) @ [EvOpen, EvSeek]
                @ replicate (Suc (length ([] :: char list list))) EvRead
                @ [EvSeek, EvWrite, EvWrite, EvClose]\<rparr>)"
  proof (rule adjust_score_updates)
    show "validate_name ''alice'' = 1"
      by (rule valid_alice)
    show "match_name (name_to_search ''alice'') ?r0 = 1"
      by (rule match_alice)
    show "check_sum (get_score ?r0) 1 = 1"
      unfolding g0 by (simp add: check_sum_def to_long_def eval_defs)
    show "get_score ?r0 \<noteq> INT_MIN"
      unfolding g0 by (simp add: INT_MIN_def)
  qed (simp_all add: eval_defs)
  then have "adjust_score (closed_file (?r0 @ ?rmax)) 1001 ''alice'' 1 =
    (1, None,
     (closed_file (?r0 @ ?rmax))\<lparr>bytes := (''alice'' @ replicate 5 NUL @ ''1'' @ replicate 9 NUL @ [NL]) @ ?rmax,
       fpos := 21, is_open := False,
       trace := [EvOpen, EvSeek, EvRead, EvSeek, EvWrite, EvWrite, EvClose]\<rparr>)"
    unfolding g0 by (simp add: name_alice dec_1 to_int_def closed_file_def)
  moreover have "complete_line ?rmax" "get_score ?rmax = INT_MAX"
    by (simp_all add: eval_defs)
  moreover have "match_name (name_to_search ''alice'') ?rmax = 1"
    by (rule match_alice)
  ultimately show ?thesis
    by (simp add: INT_MAX_def)
qed

subsection \<open>The scenario of one record\<close>

text \<open>
  C3, with null padding. The file holds one record: the name field \<open>alice\<close> with five null bytes,
  the score field \<open>100\<close> with seven null bytes, and a newline. Adjusting alice by 50 succeeds;
  afterwards the file holds the same 21 bytes but for the score field, which reads \<open>150\<close>
  with seven null bytes: the record is rewritten at its offset and the length of the file
  is unchanged.
\<close>

theorem alice_scenario_null_padded:
  "adjust_score (closed_file (''alice'' @ replicate 5 NUL @ ''100'' @ replicate 7 NUL @ [NL]))
      uid ''alice'' 50 =
     (1, None,
      \<lparr>bytes = ''alice'' @ replicate 5 NUL @ ''150'' @ replicate 7 NUL @ [NL],
       fpos = 21, is_open = False, can_open = True, plan = [],
       trace = [EvOpen, EvSeek, EvRead, EvSeek, EvWrite, EvWrite, EvClose]\<rparr>)
   \<and> length (''alice'' @ replicate 5 NUL @ ''150'' @ replicate 7 NUL @ [NL])
     = length (''alice'' @ replicate 5 NUL @ ''100'' @ replicate 7 NUL @ [NL])
   \<and> get_score (''alice'' @ replicate 5 NUL @ ''150'' @ replicate 7 NUL @ [NL]) = 150"
proof -
  let ?r = "''alice'' @ replicate 5 NUL @ ''100'' @ replicate 7 NUL @ [NL]"
  have g: "get_score ?r = 100"
    by (simp add: eval_defs)
  have "adjust_score (closed_file ?r) uid ''alice'' 50 =
    (1, None,
     (closed_file ?r)\<lparr>bytes := concat [] @ name_to_search ''alice''
          @ score_string (to_int (get_score ?r + 50)) @ [],
       fpos := length (concat ([] :: char list list)) + 21, is_open := False,
       trace := trace (closed_file ?r) @ [EvOpen, EvSeek]
                @ replicate (Suc (length ([] :: char list list))) EvRead
                @ [EvSeek, EvWrite, EvWrite, EvClose]\<rparr>)"
  proof (rule adjust_score_updates)
    show "validate_name ''alice'' = 1"
      by (rule valid_alice)
    show "match_name (name_to_search ''alice'') ?r = 1"
      by (rule match_alice)
    show "check_sum (get_score ?r) 50 = 1"
      unfolding g by (simp add: check_sum_def to_long_def eval_defs)
    show "get_score ?r \<noteq> INT_MIN"
      unfolding g by (simp add: INT_MIN_def)
  qed (simp_all add: eval_defs)
  then have "adjust_score (closed_file ?r) uid ''alice'' 50 =
     (1, None,
      \<lparr>bytes = ''alice'' @ replicate 5 NUL @ ''150'' @ replicate 7 NUL @ [NL],
       fpos = 21, is_open = False, can_open = True, plan = [],
       trace = [EvOpen, EvSeek, EvRead, EvSeek, EvWrite, EvWrite, EvClose]\<rparr>)"
    unfolding g by (simp add: name_alice dec_150 to_int_def closed_file_def)
  moreover have "get_score (''alice'' @ replicate 5 NUL @ ''150'' @ replicate 7 NUL @ [NL]) = 150"
    by (simp add: eval_defs)
  ultimately show ?thesis
    by simp
qed

text \<open>
  C3 with the score field \<open>100\<close> followed by seven spaces: \<open>strtol\<close> stops at
  the first space, \<open>score_strtol\<close> answers \<open>SCORE_INVALID\<close>, and adjusting alice by 50
  fails with the message of a faulty record; the file is unchanged.
\<close>

theorem alice_scenario_space_padded_counterexample:
  "get_score (''alice'' @ replicate 5 NUL @ ''100       '' @ [NL]) = INT_MIN
   \<and> fst (adjust_score (closed_file (''alice'' @ replicate 5 NUL @ ''100       '' @ [NL]))
        1001 ''alice'' 50) = 0
   \<and> fst (snd (adjust_score (closed_file (''alice'' @ replicate 5 NUL @ ''100       '' @ [NL]))
        1001 ''alice'' 50)) = Some ''Error found in record\<newline>''
   \<and> bytes (snd (snd (adjust_score (closed_file (''alice'' @ replicate 5 NUL @ ''100       '' @ [NL]))
        1001 ''alice'' 50))) = ''alice'' @ replicate 5 NUL @ ''100       '' @ [NL]"
proof -
  let ?r = "''alice'' @ replicate 5 NUL @ ''100       '' @ [NL]"
  have g: "get_score ?r = INT_MIN"
    by (simp add: eval_defs)
  have "fst (find_record (snd (fopen (closed_file ?r))) (name_to_search ''alice'') 50) = - 1
    \<and> (case adjust_score (closed_file ?r) 1001 ''alice'' 50 of
        (r, m, w') \<Rightarrow> r = 0 \<and> m = Some ''Error found in record\<newline>''
          \<and> bytes w' = bytes (closed_file ?r) \<and> \<not> is_open w'
          \<and> (\<exists>k. trace w' = trace (closed_file ?r) @ [EvOpen, EvSeek] @ replicate k EvRead @ [EvClose]))"
  proof (rule adjust_score_record_error [where ls = "[]" and rest = "[]" and l = ?r])
    show "validate_name ''alice'' = 1"
      by (rule valid_alice)
    show "match_name (name_to_search ''alice'') ?r = 1"
      by (rule match_alice)
    show "get_score ?r = INT_MIN \<or> check_sum (get_score ?r) 50 = 0"
      using g by simp
  qed (simp_all add: eval_defs)
  then show ?thesis
    using g by (auto simp: closed_file_def split: prod.splits)
qed

subsection \<open>Stray lines\<close>

text \<open>
  C8. Let the file begin with complete lines each of which is not 21 bytes long (a stray
  line, whatever its bytes) or is a record of another name, followed by a complete record of
  21 bytes that matches the name and holds a valid score whose sum with the delta is in
  range. With no failure planned, \<open>find_record\<close> returns 1, not -1: it reads past every one
  of those lines, and rewrites the matching record where it stands, leaving the lines before
  and the bytes after it as they were.
\<close>

theorem stray_lines_skipped:
  assumes "plan w = []"
    and "bytes w = concat ls @ l @ rest"
    and "\<forall>x \<in> set ls. complete_line x
        \<and> (length x \<noteq> 21 \<or> match_name (name_to_search p) x = 0)"
    and "complete_line l" "length l = 21" "match_name (name_to_search p) l = 1"
    and "get_score l \<noteq> INT_MIN"
    and "INT_MIN \<le> delta" "delta \<le> INT_MAX"
    and "SCORE_LOW_BOUND \<le> get_score l + delta" "get_score l + delta \<le> INT_MAX"
  shows "find_record w (name_to_search p) delta =
    (1, w\<lparr>bytes := concat ls @ name_to_search p @ score_string (get_score l + delta) @ rest,
          fpos := length (concat ls) + 21,
          trace := trace w @ EvSeek # replicate (Suc (length ls)) EvRead
                   @ [EvSeek, EvWrite, EvWrite]\<rparr>)"
proof -
  have range: "SCORE_LOW_BOUND \<le> get_score l \<and> get_score l \<le> INT_MAX"
    using assms(7) by (rule get_score_range)
  then have cs: "check_sum (get_score l) delta = 1"
    using assms(8-11) by (intro check_sum_in_range) simp_all
  have "to_int (get_score l + delta) = get_score l + delta"
    using assms(10,11) by (intro to_int_id) (simp_all add: SCORE_LOW_BOUND_def INT_MIN_def)
  then show ?thesis
    using find_record_updates [OF assms(1,3,2,4,5,6,7) cs length_name_to_search]
    by simp
qed

theorem stray_lines_skipped_witness:
  "find_record
     ((closed_file (concat [''stray line'' @ [NL], [NL]]
                    @ (''alice'' @ replicate 5 NUL @ ''100'' @ replicate 7 NUL @ [NL])
                    @ ''tail''))\<lparr>is_open := True\<rparr>)
     (name_to_search ''alice'') 50 =
    (1, (closed_file (concat [''stray line'' @ [NL], [NL]]
                    @ (''alice'' @ replicate 5 NUL @ ''100'' @ replicate 7 NUL @ [NL])
                    @ ''tail''))\<lparr>is_open := True\<rparr>
        \<lparr>bytes := concat [''stray line'' @ [NL], [NL]] @ name_to_search ''alice''
            @ score_string
                (get_score (''alice'' @ replicate 5 NUL @ ''100'' @ replicate 7 NUL @ [NL]) + 50)
            @ ''tail'',
          fpos := length (concat [''stray line'' @ [NL], [NL]]) + 21,
          trace := trace ((closed_file (concat [''stray line'' @ [NL], [NL]]
                    @ (''alice'' @ replicate 5 NUL @ ''100'' @ replicate 7 NUL @ [NL])
                    @ ''tail''))\<lparr>is_open := True\<rparr>)
                   @ EvSeek # replicate (Suc (length [''stray line'' @ [NL], [NL]])) EvRead
                   @ [EvSeek, EvWrite, EvWrite]\<rparr>)"
proof (rule stray_lines_skipped)
  let ?r = "''alice'' @ replicate 5 NUL @ ''100'' @ replicate 7 NUL @ [NL]"
  have g: "get_score ?r = 100"
    by (simp add: eval_defs)
  show "match_name (name_to_search ''alice'') ?r = 1"
    by (rule match_alice)
  show "get_score ?r \<noteq> INT_MIN" "SCORE_LOW_BOUND \<le> get_score ?r + 50"
    "get_score ?r + 50 \<le> INT_MAX"
    unfolding g by (simp_all add: INT_MIN_def SCORE_LOW_BOUND_def INT_MAX_def)
qed (simp_all add: eval_defs)

subsection \<open>Appending a record\<close>

text \<open>
  C7 at a delta below \<open>SCORE_LOW_BOUND\<close>. The decimal text of -1000000000 has 11
  characters and \<open>snprintf\<close> keeps 10 of them: on the empty file, adjusting bob by
  -1000000000 finds no record, returns 1 and appends a record whose score field reads
  -100000000. The path that rewrites a record refuses the same delta through
  \<open>check_sum\<close>: on a file that holds bob with score 0 the call returns 0 with the message
  of a faulty record and the file is unchanged. The path that appends has no such check.
\<close>

theorem append_cuts_score_below_low_bound:
  "validate_name ''bob'' = 1
   \<and> INT_MIN \<le> - 1000000000
   \<and> fst (find_record (snd (fopen (closed_file []))) (name_to_search ''bob'') (- 1000000000)) = 0
   \<and> fst (adjust_score (closed_file []) 1001 ''bob'' (- 1000000000)) = 1
   \<and> bytes (snd (snd (adjust_score (closed_file []) 1001 ''bob'' (- 1000000000))))
      = ''bob'' @ replicate 7 NUL @ ''-100000000'' @ [NL]
   \<and> get_score (''bob'' @ replicate 7 NUL @ ''-100000000'' @ [NL]) = - 100000000
   \<and> get_score (''bob'' @ replicate 7 NUL @ ''0'' @ replicate 9 NUL @ [NL]) = 0
   \<and> fst (adjust_score (closed_file (''bob'' @ replicate 7 NUL @ ''0'' @ replicate 9 NUL @ [NL]))
        1001 ''bob'' (- 1000000000)) = 0
   \<and> fst (snd (adjust_score (closed_file (''bob'' @ replicate 7 NUL @ ''0'' @ replicate 9 NUL @ [NL]))
        1001 ''bob'' (- 1000000000))) = Some ''Error found in record\<newline>''
   \<and> bytes (snd (snd (adjust_score
        (closed_file (''bob'' @ replicate 7 NUL @ ''0'' @ replicate 9 NUL @ [NL]))
        1001 ''bob'' (- 1000000000))))
      = ''bob'' @ replicate 7 NUL @ ''0'' @ replicate 9 NUL @ [NL]"
proof -
  let ?w = "closed_file []"
  let ?r0 = "''bob'' @ replicate 7 NUL @ ''0'' @ replicate 9 NUL @ [NL]"
  have miss: "fst (find_record (snd (fopen ?w)) (name_to_search ''bob'') (- 1000000000)) = 0"
    by (simp add: find_record_def fopen_def fseek_set_ok find_loop_eof closed_file_def)
  have nm: "name_to_search ''bob'' = ''bob'' @ replicate 7 NUL"
    by (simp add: name_to_search_eq c_str_def strlen_def NUL_def)
  have ss: "score_string (- 1000000000) = ''-100000000'' @ [NL]"
    by (simp add: score_string_def snprintf_d_def dec_int_def dec_nat.simps digit_char_def eval_defs)
  have v: "validate_name ''bob'' = 1" and o: "can_open ?w" and pl: "plan ?w = []"
    by (simp_all add: eval_defs)
  have app: "fst (adjust_score ?w 1001 ''bob'' (- 1000000000)) = 1
    \<and> bytes (snd (snd (adjust_score ?w 1001 ''bob'' (- 1000000000))))
      = ''bob'' @ replicate 7 NUL @ ''-100000000'' @ [NL]"
    using adjust_score_appends [OF v o pl miss, of 1001]
    by (auto simp: nm ss closed_file_def split: prod.splits)
  have cut: "get_score (''bob'' @ replicate 7 NUL @ ''-100000000'' @ [NL]) = - 100000000"
    by (simp add: eval_defs)
  have g0: "get_score ?r0 = 0"
    by (simp add: eval_defs)
  have m0: "match_name (name_to_search ''bob'') ?r0 = 1"
    using match_name_record [of "''bob''" "''bob''" "''0'' @ replicate 9 NUL @ [NL]"]
    by (simp add: nm)
  have "fst (find_record (snd (fopen (closed_file ?r0))) (name_to_search ''bob'') (- 1000000000)) = - 1
    \<and> (case adjust_score (closed_file ?r0) 1001 ''bob'' (- 1000000000) of
        (r, m, w') \<Rightarrow> r = 0 \<and> m = Some ''Error found in record\<newline>''
          \<and> bytes w' = bytes (closed_file ?r0) \<and> \<not> is_open w'
          \<and> (\<exists>k. trace w' = trace (closed_file ?r0) @ [EvOpen, EvSeek] @ replicate k EvRead @ [EvClose]))"
  proof (rule adjust_score_record_error [where ls = "[]" and rest = "[]" and l = ?r0])
    show "validate_name ''bob'' = 1"
      by (rule v)
    show "match_name (name_to_search ''bob'') ?r0 = 1"
      by (rule m0)
    show "get_score ?r0 = INT_MIN \<or> check_sum (get_score ?r0) (- 1000000000) = 0"
      unfolding g0 by (simp add: check_sum_def to_long_def eval_defs)
  qed (simp_all add: eval_defs)
  then have rew: "fst (adjust_score (closed_file ?r0) 1001 ''bob'' (- 1000000000)) = 0
    \<and> fst (snd (adjust_score (closed_file ?r0) 1001 ''bob'' (- 1000000000)))
        = Some ''Error found in record\<newline>''
    \<and> bytes (snd (snd (adjust_score (closed_file ?r0) 1001 ''bob'' (- 1000000000)))) = ?r0"
    by (auto simp: closed_file_def split: prod.splits)
  from v miss app cut g0 rew show ?thesis
    by (simp add: INT_MIN_def)
qed

subsection \<open>The classification of score_strtol\<close>

text \<open>
  C5, with the range checks first. \<open>score_strtol\<close> answers \<open>SCORE_INVALID\<close> for the empty string and for a
  string that begins with whitespace. For a string made of an optional sign, at least one
  digit, and then a character that is not a digit, the range checks come first: the answer
  is \<open>SCORE_OVERFLOW\<close> when the value of the numeric prefix is above \<open>INT_MAX\<close>,
  \<open>SCORE_UNDERFLOW\<close> when it is below \<open>SCORE_LOW_BOUND\<close>, and \<open>SCORE_INVALID\<close> only when
  it lies between the two.
\<close>

theorem score_strtol_classification:
  "(c_str s = [] \<longrightarrow> fst (score_strtol s0 s) = SCORE_INVALID)
   \<and> (\<forall>c t. c_str s = c # t \<and> isspace c \<longrightarrow> fst (score_strtol s0 s) = SCORE_INVALID)
   \<and> (\<forall>sg ds c t.
        c_str s = sg @ ds @ c # t \<and> sg \<in> {[], ''+'', ''-''} \<and> ds \<noteq> []
          \<and> (\<forall>d \<in> set ds. isdigit d) \<and> \<not> isdigit c \<longrightarrow>
        fst (score_strtol s0 s) =
          (if (if sg = ''-'' then - int (digits_val ds) else int (digits_val ds)) > INT_MAX
             then SCORE_OVERFLOW
           else if (if sg = ''-'' then - int (digits_val ds) else int (digits_val ds))
                   < SCORE_LOW_BOUND
             then SCORE_UNDERFLOW
           else SCORE_INVALID))"
proof (intro conjI allI impI)
  assume "c_str s = []"
  then show "fst (score_strtol s0 s) = SCORE_INVALID"
    by (simp add: score_strtol_def)
next
  fix c t
  assume "c_str s = c # t \<and> isspace c"
  then show "fst (score_strtol s0 s) = SCORE_INVALID"
    by (simp add: score_strtol_def)
next
  fix sg ds c t
  assume a: "c_str s = sg @ ds @ c # t \<and> sg \<in> {[], ''+'', ''-''} \<and> ds \<noteq> []
          \<and> (\<forall>d \<in> set ds. isdigit d) \<and> \<not> isdigit c"
  then show "fst (score_strtol s0 s) =
          (if (if sg = ''-'' then - int (digits_val ds) else int (digits_val ds)) > INT_MAX
             then SCORE_OVERFLOW
           else if (if sg = ''-'' then - int (digits_val ds) else int (digits_val ds))
                   < SCORE_LOW_BOUND
             then SCORE_UNDERFLOW
           else SCORE_INVALID)"
    using score_strtol_numeric_prefix [of s sg ds c t s0] by blast
qed

theorem score_strtol_classification_witness:
  "fst (score_strtol 0 ''12x'') = SCORE_INVALID"
proof -
  have "c_str ''12x'' = [] @ ''12'' @ CHR ''x'' # []"
    by (simp add: c_str_def NUL_def)
  moreover have "([] :: char list) \<in> {[], ''+'', ''-''}" "''12'' \<noteq> []"
    "\<forall>d \<in> set ''12''. isdigit d" "\<not> isdigit (CHR ''x'')"
    by (simp_all add: isdigit_def)
  ultimately have "fst (score_strtol 0 ''12x'') =
          (if (if [] = ''-'' then - int (digits_val ''12'') else int (digits_val ''12'')) > INT_MAX
             then SCORE_OVERFLOW
           else if (if [] = ''-'' then - int (digits_val ''12'') else int (digits_val ''12''))
                   < SCORE_LOW_BOUND
             then SCORE_UNDERFLOW
           else SCORE_INVALID)"
    using score_strtol_classification [of "''12x''" 0] by blast
  then show ?thesis
    by (simp add: digits_val_def digit_val_def INT_MAX_def SCORE_LOW_BOUND_def)
qed

text \<open>C5 does not hold when the numeric prefix is out of range: the trailing character is
  never looked at.\<close>

theorem score_strtol_trailing_counterexample:
  "fst (score_strtol 0 ''99999999999x'') = SCORE_OVERFLOW
   \<and> fst (score_strtol 0 ''-99999999999x'') = SCORE_UNDERFLOW"
  by (simp add: eval_defs)

subsection \<open>The file handle\<close>

text \<open>
  C9. Whenever the name is accepted and the file is opened, whatever the bytes of the file
  and whatever seek and write failures are planned, and so whatever the result and the
  message, the handle is closed when \<open>adjust_score\<close> returns: after the call that opened the
  file the trace holds seeks, reads and writes only, and its last call closes the file.
\<close>

theorem handle_closed_on_every_path:
  assumes "validate_name p = 1" "can_open w"
  shows "case adjust_score w uid p d of
      (r, m, w') \<Rightarrow>
        \<not> is_open w'
        \<and> (\<exists>es. trace w' = trace w @ EvOpen # es @ [EvClose]
              \<and> set es \<subseteq> {EvSeek, EvRead, EvWrite})"
proof -
  let ?w1 = "w\<lparr>is_open := True, fpos := 0, trace := trace w @ [EvOpen]\<rparr>"
  let ?nm = "name_to_search p"
  obtain fp w2 where fr: "find_record ?w1 ?nm d = (fp, w2)"
    by (cases "find_record ?w1 ?nm d") auto
  obtain r3 w3 where sk: "fseek w2 0 SEEK_END = (r3, w3)"
    by (cases "fseek w2 0 SEEK_END") auto
  obtain r4 w4 where ws: "write_score w3 ?nm d SEEK_END 0 = (r4, w4)"
    by (cases "write_score w3 ?nm d SEEK_END 0") auto
  have s2: "stream_step ?w1 w2"
    using fr by (rule stream_step_find_record)
  have s3: "stream_step ?w1 w3"
    using s2 stream_step_fseek [OF sk] by (rule stream_step_trans)
  have s4: "stream_step ?w1 w4"
    using s3 stream_step_write_score [OF ws] by (rule stream_step_trans)
  show ?thesis
    unfolding adjust_score_opened [OF assms] fr
    using closed_after [OF s2] closed_after [OF s3] closed_after [OF s4]
    by (simp add: sk ws)
qed

text \<open>The path on which the write of a new record fails: the seek of the scan and the seek
  to the end succeed, the seek of \<open>write_score\<close> does not.\<close>

theorem handle_closed_on_every_path_witness:
  "fst (snd (adjust_score ((closed_file [])\<lparr>plan := [False, False, True]\<rparr>) 1001 ''bob'' 5))
     = Some ''Error writing new record\<newline>''
   \<and> (case adjust_score ((closed_file [])\<lparr>plan := [False, False, True]\<rparr>) 1001 ''bob'' 5 of
      (r, m, w') \<Rightarrow>
        \<not> is_open w'
        \<and> (\<exists>es. trace w' = trace ((closed_file [])\<lparr>plan := [False, False, True]\<rparr>)
                @ EvOpen # es @ [EvClose]
              \<and> set es \<subseteq> {EvSeek, EvRead, EvWrite}))"
proof
  let ?w = "(closed_file [])\<lparr>plan := [False, False, True]\<rparr>"
  have v: "validate_name ''bob'' = 1" and o: "can_open ?w"
    by (simp_all add: eval_defs)
  show "fst (snd (adjust_score ?w 1001 ''bob'' 5)) = Some ''Error writing new record\<newline>''"
    unfolding adjust_score_opened [OF v o]
    by (simp add: find_record_def fseek_def next_fails_def find_loop_eof write_score_def
        snprintf_ret_def closed_file_def Let_def)
  show "case adjust_score ?w 1001 ''bob'' 5 of
      (r, m, w') \<Rightarrow>
        \<not> is_open w'
        \<and> (\<exists>es. trace w' = trace ?w @ EvOpen # es @ [EvClose]
              \<and> set es \<subseteq> {EvSeek, EvRead, EvWrite})"
    using v o by (rule handle_closed_on_every_path)
qed

subsection \<open>Names of ten characters\<close>

text \<open>
  C10. A name of exactly 10 bytes, none of them null or whitespace, is accepted by
  \<open>validate_name\<close>, and the name searched for and written is its first 9 bytes. Let \<open>n1\<close>
  and \<open>n2\<close> be two such names with the same first 9 bytes, let the file be made of complete
  lines none of which is a record of those 9 bytes, and let no seek or write fail.
  Adjusting \<open>n1\<close> by \<open>d1\<close> appends one record whose name field reads the 9 bytes and whose
  score is \<open>d1\<close>. Adjusting \<open>n2\<close> by \<open>d2\<close> afterwards finds that record and rewrites it to
  hold \<open>d1 + d2\<close>: no second record is written and the file keeps its length. On every
  file and for every delta the two names give the same result and the same file.
\<close>

theorem ten_character_names_collide:
  assumes "length n1 = 10" "length n2 = 10"
    and "\<forall>c \<in> set n1. c \<noteq> NUL \<and> \<not> isspace c"
    and "\<forall>c \<in> set n2. c \<noteq> NUL \<and> \<not> isspace c"
    and "take 9 n1 = take 9 n2"
    and "can_open w" "plan w = []"
    and "bytes w = concat ls"
    and "\<forall>x \<in> set ls. complete_line x
        \<and> (length x \<noteq> 21 \<or> match_name (take 9 n1 @ [NUL]) x = 0)"
    and "SCORE_LOW_BOUND \<le> d1" "d1 \<le> INT_MAX" "INT_MIN \<le> d2" "d2 \<le> INT_MAX"
    and "SCORE_LOW_BOUND \<le> d1 + d2" "d1 + d2 \<le> INT_MAX"
  shows "validate_name n1 = 1 \<and> validate_name n2 = 1
    \<and> name_to_search n1 = take 9 n1 @ [NUL]
    \<and> name_to_search n2 = take 9 n1 @ [NUL]
    \<and> (case adjust_score w uid n1 d1 of
        (r1, m1, w1) \<Rightarrow>
          r1 = 1 \<and> m1 = None
          \<and> bytes w1 = bytes w @ (take 9 n1 @ [NUL]) @ score_string d1
          \<and> c_str (take 10 (drop (length (bytes w)) (bytes w1))) = take 9 n1
          \<and> get_score (drop (length (bytes w)) (bytes w1)) = d1
          \<and> (case adjust_score w1 uid n2 d2 of
              (r2, m2, w2) \<Rightarrow>
                r2 = 1 \<and> m2 = None
                \<and> bytes w2 = bytes w @ (take 9 n1 @ [NUL]) @ score_string (d1 + d2)
                \<and> get_score (drop (length (bytes w)) (bytes w2)) = d1 + d2
                \<and> length (bytes w2) = length (bytes w1)))
    \<and> (\<forall>w' u d. adjust_score w' u n1 d = adjust_score w' u n2 d)"
proof -
  have c1: "c_str n1 = n1" and c2: "c_str n2 = n2"
    using assms(3,4) by (auto intro: c_str_no_NUL)
  have v1: "validate_name n1 = 1"
    using assms(1,3) by (simp add: validate_name_iff c1 strlen_def)
  have v2: "validate_name n2 = 1"
    using assms(2,4) by (simp add: validate_name_iff c2 strlen_def)
  have s1: "name_to_search n1 = take 9 n1 @ [NUL]"
    using assms(1) by (simp add: name_to_search_eq c1 strlen_def)
  have s2: "name_to_search n2 = take 9 n1 @ [NUL]"
    using assms(2,5) by (simp add: name_to_search_eq c2 strlen_def)
  have same: "name_to_search n2 = name_to_search n1"
    by (simp add: s1 s2)
  have eq: "adjust_score w' u n1 d = adjust_score w' u n2 d" for w' u d
    unfolding adjust_score_def v1 v2 s1 s2 by (rule refl)
  have lines: "\<forall>x \<in> set ls. complete_line x
        \<and> (length x \<noteq> 21 \<or> match_name (name_to_search n1) x = 0)"
    using assms(9) by (simp add: s1)
  have nul: "NUL \<notin> set (take 9 n1)"
    using assms(3) set_take_subset [of 9 n1] by blast
  have nmf: "c_str ((take 9 n1 @ [NUL]) @ rest) = take 9 n1" for rest
    using c_str_terminated [OF nul, of rest] by simp
  have l9: "length (take 9 n1) = 9"
    using assms(1) by simp
  have tk: "take 10 ((take 9 n1 @ [NUL]) @ rest) = take 9 n1 @ [NUL]" for rest
    using l9 by simp
  have nf: "c_str (take 10 ((take 9 n1 @ [NUL]) @ rest)) = take 9 n1" for rest
    unfolding tk using c_str_terminated [OF nul, of "[]"] by simp
  from adjust_score_twice [OF v1 v2 same assms(6,7,8) lines assms(10-15), of uid]
  have "case adjust_score w uid n1 d1 of
        (r1, m1, w1) \<Rightarrow>
          r1 = 1 \<and> m1 = None
          \<and> bytes w1 = bytes w @ (take 9 n1 @ [NUL]) @ score_string d1
          \<and> c_str (take 10 (drop (length (bytes w)) (bytes w1))) = take 9 n1
          \<and> get_score (drop (length (bytes w)) (bytes w1)) = d1
          \<and> (case adjust_score w1 uid n2 d2 of
              (r2, m2, w2) \<Rightarrow>
                r2 = 1 \<and> m2 = None
                \<and> bytes w2 = bytes w @ (take 9 n1 @ [NUL]) @ score_string (d1 + d2)
                \<and> get_score (drop (length (bytes w)) (bytes w2)) = d1 + d2
                \<and> length (bytes w2) = length (bytes w1))"
    using nf by (auto simp: s1 split: prod.splits)
  with v1 v2 s1 s2 eq show ?thesis
    by blast
qed

text \<open>The names abcdefghiX and abcdefghiY on the empty file: the first call writes a record
  of abcdefghi with score 5, the second rewrites it to score 11.\<close>

theorem ten_character_names_collide_witness:
  "''abcdefghiX'' \<noteq> ''abcdefghiY''
   \<and> validate_name ''abcdefghiX'' = 1 \<and> validate_name ''abcdefghiY'' = 1
   \<and> name_to_search ''abcdefghiX'' = ''abcdefghi'' @ [NUL]
   \<and> name_to_search ''abcdefghiY'' = ''abcdefghi'' @ [NUL]
   \<and> (case adjust_score (closed_file []) 1001 ''abcdefghiX'' 5 of
        (r1, m1, w1) \<Rightarrow>
          r1 = 1 \<and> bytes w1 = ''abcdefghi'' @ [NUL] @ ''5'' @ replicate 9 NUL @ [NL]
          \<and> get_score (bytes w1) = 5
          \<and> (case adjust_score w1 1001 ''abcdefghiY'' 6 of
              (r2, m2, w2) \<Rightarrow>
                r2 = 1 \<and> bytes w2 = ''abcdefghi'' @ [NUL] @ ''11'' @ replicate 8 NUL @ [NL]
                \<and> get_score (bytes w2) = 11
                \<and> length (bytes w2) = 21))"
proof -
  have s5: "score_string 5 = ''5'' @ replicate 9 NUL @ [NL]"
    by (simp add: score_string_in_range dec_int_def dec_nat.simps digit_char_def eval_defs)
  have s11: "score_string 11 = ''11'' @ replicate 8 NUL @ [NL]"
    by (simp add: score_string_in_range dec_int_def dec_nat.simps digit_char_def eval_defs)
  have "validate_name ''abcdefghiX'' = 1 \<and> validate_name ''abcdefghiY'' = 1
    \<and> name_to_search ''abcdefghiX'' = take 9 ''abcdefghiX'' @ [NUL]
    \<and> name_to_search ''abcdefghiY'' = take 9 ''abcdefghiX'' @ [NUL]
    \<and> (case adjust_score (closed_file []) 1001 ''abcdefghiX'' 5 of
        (r1, m1, w1) \<Rightarrow>
          r1 = 1 \<and> m1 = None
          \<and> bytes w1 = bytes (closed_file []) @ (take 9 ''abcdefghiX'' @ [NUL]) @ score_string 5
          \<and> c_str (take 10 (drop (length (bytes (closed_file []))) (bytes w1)))
              = take 9 ''abcdefghiX''
          \<and> get_score (drop (length (bytes (closed_file []))) (bytes w1)) = 5
          \<and> (case adjust_score w1 1001 ''abcdefghiY'' 6 of
              (r2, m2, w2) \<Rightarrow>
                r2 = 1 \<and> m2 = None
                \<and> bytes w2 = bytes (closed_file []) @ (take 9 ''abcdefghiX'' @ [NUL])
                     @ score_string (5 + 6)
                \<and> get_score (drop (length (bytes (closed_file []))) (bytes w2)) = 5 + 6
                \<and> length (bytes w2) = length (bytes w1)))
    \<and> (\<forall>w' u d. adjust_score w' u ''abcdefghiX'' d = adjust_score w' u ''abcdefghiY'' d)"
    by (rule ten_character_names_collide [where ls = "[]"])
       (simp_all add: eval_defs)
  then show ?thesis
    by (auto simp: s5 s11 closed_file_def split: prod.splits)
qed

subsection \<open>The validation of names\<close>

text \<open>
  C4 at a name of 10 characters: \<open>validate_name\<close> tests \<open>len > 10\<close>, so the name is
  accepted although the name field holds 9 characters; the file is opened and read, and a
  record is written for the first 9 characters of the name.
\<close>

theorem ten_character_name_accepted:
  "validate_name ''abcdefghij'' = 1
   \<and> adjust_score (closed_file []) 1001 ''abcdefghij'' 7 =
     (1, None,
      \<lparr>bytes = ''abcdefghi'' @ [NUL] @ ''7'' @ replicate 9 NUL @ [NL],
       fpos = 21, is_open = False, can_open = True, plan = [],
       trace = [EvOpen, EvSeek, EvRead, EvSeek, EvSeek, EvWrite, EvWrite, EvClose]\<rparr>)"
proof -
  let ?w = "closed_file []"
  have v: "validate_name ''abcdefghij'' = 1" and o: "can_open ?w"
    by (simp_all add: eval_defs)
  have nm: "name_to_search ''abcdefghij'' = ''abcdefghi'' @ [NUL]"
    by (simp add: name_to_search_eq c_str_def strlen_def NUL_def)
  have ss: "score_string 7 = ''7'' @ replicate 9 NUL @ [NL]"
    by (simp add: score_string_in_range dec_int_def dec_nat.simps digit_char_def eval_defs)
  have "adjust_score ?w 1001 ''abcdefghij'' 7 =
     (1, None,
      \<lparr>bytes = ''abcdefghi'' @ [NUL] @ ''7'' @ replicate 9 NUL @ [NL],
       fpos = 21, is_open = False, can_open = True, plan = [],
       trace = [EvOpen, EvSeek, EvRead, EvSeek, EvSeek, EvWrite, EvWrite, EvClose]\<rparr>)"
    unfolding adjust_score_opened [OF v o]
    by (simp add: find_record_def fseek_set_ok find_loop_eof fseek_end_ok write_score_append
        length_name_to_search fclose_def closed_file_def)
       (simp add: nm ss)
  with v show ?thesis
    by simp
qed

text \<open>
  X1, the part of C4 the code keeps: a name longer than 10 characters, or one that holds a
  whitespace character, is rejected with the message of an invalid name, and the state of
  the file, its trace of calls included, is the one before the call: no call is made on
  the file.
\<close>

theorem invalid_name_rejected_without_io:
  assumes "strlen p > 10 \<or> (\<exists>c \<in> set (c_str p). isspace c)"
  shows "adjust_score w uid p d = (0, Some ''Player name invalid\<newline>'', w)"
proof -
  have "validate_name p \<noteq> 1"
    using assms by (auto simp: validate_name_iff)
  then show ?thesis
    by (simp add: adjust_score_def msg_invalid)
qed

theorem invalid_name_rejected_without_io_witness:
  "adjust_score (closed_file ''x'') 1001 ''bad name'' 5
     = (0, Some ''Player name invalid\<newline>'', closed_file ''x'')
   \<and> adjust_score (closed_file ''x'') 1001 ''abcdefghijk'' 5
     = (0, Some ''Player name invalid\<newline>'', closed_file ''x'')"
proof
  have "\<exists>c \<in> set (c_str ''bad name''). isspace c"
    by (simp add: c_str_def NUL_def isspace_def)
  then show "adjust_score (closed_file ''x'') 1001 ''bad name'' 5
     = (0, Some ''Player name invalid\<newline>'', closed_file ''x'')"
    by (intro invalid_name_rejected_without_io) simp
  have "strlen ''abcdefghijk'' > 10"
    by (simp add: strlen_def c_str_def NUL_def)
  then show "adjust_score (closed_file ''x'') 1001 ''abcdefghijk'' 5
     = (0, Some ''Player name invalid\<newline>'', closed_file ''x'')"
    by (intro invalid_name_rejected_without_io) simp
qed

subsection \<open>Further properties of adjust_score\<close>

text \<open>
  X2, a miss and then a hit. Let the file be made of complete lines none of which is a record
  of 21 bytes matching the name, and let no seek or write fail. Adjusting the player by
  \<open>d1\<close>, a score in range, appends a record that holds \<open>d1\<close>; adjusting the same player
  again by \<open>d2\<close>, with \<open>d1 + d2\<close> in range, rewrites that record to hold \<open>d1 + d2\<close> and
  leaves the length of the file as it was.
\<close>

theorem miss_then_hit:
  assumes "validate_name p = 1" "can_open w" "plan w = []"
    and "bytes w = concat ls"
    and "\<forall>x \<in> set ls. complete_line x
        \<and> (length x \<noteq> 21 \<or> match_name (name_to_search p) x = 0)"
    and "SCORE_LOW_BOUND \<le> d1" "d1 \<le> INT_MAX" "INT_MIN \<le> d2" "d2 \<le> INT_MAX"
    and "SCORE_LOW_BOUND \<le> d1 + d2" "d1 + d2 \<le> INT_MAX"
  shows "case adjust_score w uid p d1 of
      (r1, m1, w1) \<Rightarrow>
        r1 = 1 \<and> bytes w1 = bytes w @ name_to_search p @ score_string d1
        \<and> get_score (name_to_search p @ score_string d1) = d1
        \<and> (case adjust_score w1 uid p d2 of
            (r2, m2, w2) \<Rightarrow>
              r2 = 1 \<and> bytes w2 = bytes w @ name_to_search p @ score_string (d1 + d2)
              \<and> get_score (name_to_search p @ score_string (d1 + d2)) = d1 + d2
              \<and> length (bytes w2) = length (bytes w1))"
proof -
  have "name_to_search p = name_to_search p"
    by (rule refl)
  from adjust_score_twice [OF assms(1) assms(1) this assms(2-11), of uid]
  show ?thesis
    by (auto split: prod.splits)
qed

theorem miss_then_hit_witness:
  "case adjust_score (closed_file (concat [''stray'' @ [NL]])) 1001 ''bob'' (- 5) of
      (r1, m1, w1) \<Rightarrow>
        r1 = 1
        \<and> bytes w1 = bytes (closed_file (concat [''stray'' @ [NL]]))
             @ name_to_search ''bob'' @ score_string (- 5)
        \<and> get_score (name_to_search ''bob'' @ score_string (- 5)) = - 5
        \<and> (case adjust_score w1 1001 ''bob'' 12 of
            (r2, m2, w2) \<Rightarrow>
              r2 = 1
              \<and> bytes w2 = bytes (closed_file (concat [''stray'' @ [NL]]))
                   @ name_to_search ''bob'' @ score_string (- 5 + 12)
              \<and> get_score (name_to_search ''bob'' @ score_string (- 5 + 12)) = - 5 + 12
              \<and> length (bytes w2) = length (bytes w1))"
  by (rule miss_then_hit [where ls = "[''stray'' @ [NL]]"]) (simp_all add: eval_defs)

text \<open>
  X3. When the name is accepted and the file cannot be opened, \<open>adjust_score\<close> returns 0 with
  the message of a failed opening; the failed call is the only one made, and the file is
  as it was.
\<close>

theorem open_failure_reported:
  assumes "validate_name p = 1" "\<not> can_open w"
  shows "adjust_score w uid p d =
    (0, Some ''File open error'', w\<lparr>trace := trace w @ [EvOpenFailed]\<rparr>)"
  using assms by (simp add: adjust_score_def fopen_def msg_open)

theorem open_failure_reported_witness:
  "adjust_score ((closed_file ''x'')\<lparr>can_open := False\<rparr>) 1001 ''bob'' 5 =
    (0, Some ''File open error'',
     (closed_file ''x'')\<lparr>can_open := False\<rparr>
       \<lparr>trace := trace ((closed_file ''x'')\<lparr>can_open := False\<rparr>) @ [EvOpenFailed]\<rparr>)"
  by (rule open_failure_reported) (simp_all add: eval_defs)

text \<open>
  X4, the scenario of C7. The empty file, adjusted for bob by -5, holds exactly one record
  of 21 bytes: the name field \<open>bob\<close> with seven null bytes, the score field \<open>-5\<close> with
  eight null bytes, and a newline; the name field reads bob and the score reads -5.
\<close>

theorem bob_scenario_empty_file:
  "adjust_score (closed_file []) uid ''bob'' (- 5) =
     (1, None,
      \<lparr>bytes = ''bob'' @ replicate 7 NUL @ ''-5'' @ replicate 8 NUL @ [NL],
       fpos = 21, is_open = False, can_open = True, plan = [],
       trace = [EvOpen, EvSeek, EvRead, EvSeek, EvSeek, EvWrite, EvWrite, EvClose]\<rparr>)
   \<and> length (''bob'' @ replicate 7 NUL @ ''-5'' @ replicate 8 NUL @ [NL]) = 21
   \<and> c_str (take 10 (''bob'' @ replicate 7 NUL @ ''-5'' @ replicate 8 NUL @ [NL])) = ''bob''
   \<and> get_score (''bob'' @ replicate 7 NUL @ ''-5'' @ replicate 8 NUL @ [NL]) = - 5"
proof -
  let ?w = "closed_file []"
  have v: "validate_name ''bob'' = 1" and o: "can_open ?w"
    by (simp_all add: eval_defs)
  have nm: "name_to_search ''bob'' = ''bob'' @ replicate 7 NUL"
    by (simp add: name_to_search_eq c_str_def strlen_def NUL_def)
  have ss: "score_string (- 5) = ''-5'' @ replicate 8 NUL @ [NL]"
    by (simp add: score_string_in_range dec_int_def dec_nat.simps digit_char_def eval_defs)
  have "adjust_score ?w uid ''bob'' (- 5) =
     (1, None,
      \<lparr>bytes = ''bob'' @ replicate 7 NUL @ ''-5'' @ replicate 8 NUL @ [NL],
       fpos = 21, is_open = False, can_open = True, plan = [],
       trace = [EvOpen, EvSeek, EvRead, EvSeek, EvSeek, EvWrite, EvWrite, EvClose]\<rparr>)"
    unfolding adjust_score_opened [OF v o]
    by (simp add: find_record_def fseek_set_ok find_loop_eof fseek_end_ok write_score_append
        length_name_to_search fclose_def closed_file_def)
       (simp add: nm ss)
  moreover have "c_str (take 10 (''bob'' @ replicate 7 NUL @ ''-5'' @ replicate 8 NUL @ [NL])) = ''bob''"
    "get_score (''bob'' @ replicate 7 NUL @ ''-5'' @ replicate 8 NUL @ [NL]) = - 5"
    by (simp_all add: eval_defs)
  ultimately show ?thesis
    by simp
qed

end
